theory Spec2Isabelle
  imports Complex_Main "HOL-Library.AList" "HOL-Library.Sublist"
begin

section \<open>Python values and exceptions\<close>

text \<open>
  The objects both tools handle are the values \<^verbatim>\<open>json.load\<close> produces and
  \<^verbatim>\<open>json.dump\<close> consumes, plus two values the caller of \<^verbatim>\<open>save_config\<close> can put
  into a document that JSON does not have: tuples (written as arrays) and bytes (not
  serialisable). A dict is an association list in insertion order. Its keys are values
  too and are compared as values: Python also takes \<^verbatim>\<open>1\<close>, \<^verbatim>\<open>1.0\<close> and \<^verbatim>\<open>True\<close> for one
  key, which plays no part here, since every key the code looks up is a string. A float
  inside a document is carried by its decimal text: the code does no arithmetic on
  documents. The characters of a string are the code points below 256.
\<close>

datatype pyval =
    PNone
  | PBool bool
  | PInt int
  | PFloat string
  | PStr string
  | PBytes string
  | PList "pyval list"
  | PTuple "pyval list"
  | PDict "(pyval \<times> pyval) list"

text \<open>
  Exceptions are values. A message is kept where the source fixes it; the part of a
  message that is formatted from another exception is left out.
\<close>

datatype py_exn =
    FileNotFoundError
  | ValueError string
  | TypeError
  | KeyError pyval
  | IndexError
  | AttributeError
  | HTTPError nat
  | JSONDecodeError
  | OverflowError

definition exn_bind :: "py_exn + 'a \<Rightarrow> ('a \<Rightarrow> py_exn + 'b) \<Rightarrow> py_exn + 'b" where
  "exn_bind r f = (case r of Inl e \<Rightarrow> Inl e | Inr x \<Rightarrow> f x)"

text \<open>\<^verbatim>\<open>key in container\<close> for a string key.\<close>

fun py_contains :: "string \<Rightarrow> pyval \<Rightarrow> py_exn + bool" where
  "py_contains k (PDict kvs) = Inr (PStr k \<in> set (map fst kvs))"
| "py_contains k (PList xs) = Inr (PStr k \<in> set xs)"
| "py_contains k (PTuple xs) = Inr (PStr k \<in> set xs)"
| "py_contains k (PStr s) = Inr (sublist k s)"
| "py_contains k (PBytes b) = Inl TypeError"
| "py_contains k PNone = Inl TypeError"
| "py_contains k (PBool b) = Inl TypeError"
| "py_contains k (PInt i) = Inl TypeError"
| "py_contains k (PFloat f) = Inl TypeError"

text \<open>
  \<^verbatim>\<open>container[key]\<close>. A dict is looked up by a hashable key; a sequence is indexed
  by an int (a bool is one), a negative index counting from the end.
\<close>

fun hashable :: "pyval \<Rightarrow> bool" where
  "hashable (PList xs) = False"
| "hashable (PDict kvs) = False"
| "hashable (PTuple xs) = list_all hashable xs"
| "hashable v = True"

definition seq_index :: "'a list \<Rightarrow> int \<Rightarrow> py_exn + 'a" where
  "seq_index xs i =
     (if 0 \<le> i \<and> i < int (length xs) then Inr (xs ! nat i)
      else if i < 0 \<and> - i \<le> int (length xs) then Inr (xs ! nat (int (length xs) + i))
      else Inl IndexError)"

fun as_index :: "pyval \<Rightarrow> int option" where
  "as_index (PInt i) = Some i"
| "as_index (PBool b) = Some (if b then 1 else 0)"
| "as_index v = None"

fun py_getitem :: "pyval \<Rightarrow> pyval \<Rightarrow> py_exn + pyval" where
  "py_getitem (PDict kvs) k =
     (if \<not> hashable k then Inl TypeError
      else case map_of kvs k of None \<Rightarrow> Inl (KeyError k) | Some v \<Rightarrow> Inr v)"
| "py_getitem (PList xs) k =
     (case as_index k of None \<Rightarrow> Inl TypeError | Some i \<Rightarrow> seq_index xs i)"
| "py_getitem (PTuple xs) k =
     (case as_index k of None \<Rightarrow> Inl TypeError | Some i \<Rightarrow> seq_index xs i)"
| "py_getitem (PStr s) k =
     (case as_index k of None \<Rightarrow> Inl TypeError
      | Some i \<Rightarrow> map_sum id (\<lambda>c. PStr [c]) (seq_index s i))"
| "py_getitem (PBytes b) k =
     (case as_index k of None \<Rightarrow> Inl TypeError
      | Some i \<Rightarrow> map_sum id (\<lambda>c. PInt (int (of_char c))) (seq_index b i))"
| "py_getitem v k = Inl TypeError"

text \<open>\<^verbatim>\<open>d.get(key, default)\<close> for a string key: a method of dict only.\<close>

fun py_get :: "pyval \<Rightarrow> string \<Rightarrow> pyval \<Rightarrow> py_exn + pyval" where
  "py_get (PDict kvs) k dflt = (case map_of kvs (PStr k) of None \<Rightarrow> Inr dflt | Some v \<Rightarrow> Inr v)"
| "py_get v k dflt = Inl AttributeError"

datatype pytype = Tstr | Tdict | Tbool

fun isinstance :: "pyval \<Rightarrow> pytype \<Rightarrow> bool" where
  "isinstance (PStr s) Tstr = True"
| "isinstance (PDict kvs) Tdict = True"
| "isinstance (PBool b) Tbool = True"
| "isinstance v t = False"

section \<open>ConfigHandler\<close>

subsection \<open>Validation\<close>

definition required_keys :: "(string \<times> pytype) list" where
  "required_keys = [(''appName'', Tstr), (''version'', Tstr), (''settings'', Tdict), (''paths'', Tdict)]"

definition settings_keys :: "(string \<times> pytype) list" where
  "settings_keys = [(''ui'', Tdict), (''logLevel'', Tstr)]"

definition ui_keys :: "(string \<times> pytype) list" where
  "ui_keys = [(''gui'', Tbool), (''theme'', Tstr)]"

definition paths_keys :: "(string \<times> pytype) list" where
  "paths_keys = [(''cacheDirectory'', Tstr), (''logFile'', Tstr)]"

text \<open>
  One of the four loops of \<^verbatim>\<open>_config_isvalid\<close>: \<open>Inr False\<close> is its \<^verbatim>\<open>return False\<close>,
  \<open>Inr True\<close> is falling out of the loop, \<open>Inl\<close> an exception raised by the test.
\<close>

fun check_keys :: "(string \<times> pytype) list \<Rightarrow> pyval \<Rightarrow> py_exn + bool" where
  "check_keys [] d = Inr True"
| "check_keys ((k, t) # rest) d =
     exn_bind (py_contains k d) (\<lambda>present.
       if \<not> present then Inr False
       else exn_bind (py_getitem d (PStr k)) (\<lambda>v.
         if \<not> isinstance v t then Inr False else check_keys rest d))"

definition config_isvalid :: "pyval \<Rightarrow> py_exn + bool" where
  "config_isvalid config_data =
     exn_bind (check_keys required_keys config_data) (\<lambda>ok1.
       if \<not> ok1 then Inr False
       else exn_bind (py_get config_data ''settings'' (PDict [])) (\<lambda>settings.
         exn_bind (check_keys settings_keys settings) (\<lambda>ok2.
           if \<not> ok2 then Inr False
           else exn_bind (py_get settings ''ui'' (PDict [])) (\<lambda>ui.
             exn_bind (check_keys ui_keys ui) (\<lambda>ok3.
               if \<not> ok3 then Inr False
               else exn_bind (py_get config_data ''paths'' (PDict [])) (\<lambda>paths.
                 exn_bind (check_keys paths_keys paths) (\<lambda>ok4.
                   if \<not> ok4 then Inr False else Inr True)))))))"

subsection \<open>The stored file\<close>

text \<open>
  The handler touches one file, at a fixed path: \<open>None\<close> when it does not exist,
  otherwise its text. \<^verbatim>\<open>json.load\<close> and \<^verbatim>\<open>json.dump\<close> belong to the Python library,
  not to this repository, so the two operations take them as parameters:
  \<open>json_load text\<close> is \<open>None\<close> when the library raises \<^verbatim>\<open>JSONDecodeError\<close>, and
  \<open>json_dump v\<close> gives the text the library wrote to the file together with the
  exception that stopped it, if any.
\<close>

record filesys =
  config_json :: "string option"

definition open_w :: "filesys \<Rightarrow> filesys" where
  "open_w fs = fs\<lparr>config_json := Some []\<rparr>"

definition fwrite :: "string \<Rightarrow> filesys \<Rightarrow> filesys" where
  "fwrite s fs = fs\<lparr>config_json := Some (case_option [] id (config_json fs) @ s)\<rparr>"

definition get_config :: "(string \<Rightarrow> pyval option) \<Rightarrow> filesys \<Rightarrow> py_exn + pyval" where
  "get_config json_load fs =
     (case config_json fs of
        None \<Rightarrow> Inl FileNotFoundError
      | Some text \<Rightarrow>
          (case json_load text of
             None \<Rightarrow> Inl (ValueError ''Error decoding JSON'')
           | Some config_data \<Rightarrow>
               exn_bind (config_isvalid config_data) (\<lambda>ok.
                 if \<not> ok then Inl (ValueError ''Configuration data is invalid.'')
                 else Inr config_data)))"

text \<open>
  The \<^verbatim>\<open>except TypeError\<close> clause of \<^verbatim>\<open>save_config\<close>: a \<^verbatim>\<open>TypeError\<close> of the library
  is raised again as a \<^verbatim>\<open>ValueError\<close>, any other exception passes through.
\<close>

definition save_outcome :: "py_exn option \<Rightarrow> py_exn + unit" where
  "save_outcome stopped =
     (case stopped of
        None \<Rightarrow> Inr ()
      | Some TypeError \<Rightarrow> Inl (ValueError ''Error saving JSON'')
      | Some e \<Rightarrow> Inl e)"

definition save_config ::
  "(pyval \<Rightarrow> string \<times> py_exn option) \<Rightarrow> pyval \<Rightarrow> filesys \<Rightarrow> (py_exn + unit) \<times> filesys" where
  "save_config json_dump config_data fs =
     (case config_isvalid config_data of
        Inl e \<Rightarrow> (Inl e, fs)
      | Inr ok \<Rightarrow>
          if \<not> ok then (Inl (ValueError ''Cannot save invalid configuration data.''), fs)
          else
            (let fs1 = open_w fs;
                 (written, stopped) = json_dump config_data;
                 fs2 = fwrite written fs1
             in (save_outcome stopped, fs2)))"

subsection \<open>A reference model of the library's JSON codec\<close>

text \<open>
  The examples below need the library at concrete inputs. This is a model of
  \<^verbatim>\<open>json.dump(obj, fp, indent=4)\<close> and of \<^verbatim>\<open>json.load(fp)\<close> as CPython's \<^verbatim>\<open>json\<close> package
  implements them (\<^verbatim>\<open>json/encoder.py\<close>, \<^verbatim>\<open>json/decoder.py\<close>, \<^verbatim>\<open>json/scanner.py\<close>), over
  texts whose characters are the code points below 256. The limits of the interpreter
  (its recursion depth, the longest int it converts to text) are not part of the model.
  The theorems about \<open>get_config\<close> and \<open>save_config\<close> hold for any codec; only their
  examples use this one.
\<close>

definition py_ord :: "char \<Rightarrow> nat" where
  "py_ord c = of_char c"

definition hex_digit :: "nat \<Rightarrow> char" where
  "hex_digit n = ''0123456789abcdef'' ! (n mod 16)"

definition hex4 :: "nat \<Rightarrow> string" where
  "hex4 n = [hex_digit (n div 4096), hex_digit (n div 256), hex_digit (n div 16), hex_digit n]"

text \<open>\<^verbatim>\<open>ESCAPE_ASCII\<close> and \<^verbatim>\<open>ESCAPE_DCT\<close> of the encoder (\<^verbatim>\<open>ensure_ascii\<close> is on).\<close>

definition escape_char :: "char \<Rightarrow> string" where
  "escape_char c =
     (if c = CHR 0x22 then [CHR 0x5C, CHR 0x22]
      else if c = CHR 0x5C then [CHR 0x5C, CHR 0x5C]
      else if c = CHR 0x0A then [CHR 0x5C, CHR ''n'']
      else if c = CHR 0x0D then [CHR 0x5C, CHR ''r'']
      else if c = CHR 0x09 then [CHR 0x5C, CHR ''t'']
      else if c = CHR 0x08 then [CHR 0x5C, CHR ''b'']
      else if c = CHR 0x0C then [CHR 0x5C, CHR ''f'']
      else if 0x20 \<le> py_ord c \<and> py_ord c \<le> 0x7E then [c]
      else [CHR 0x5C, CHR ''u''] @ hex4 (py_ord c))"

definition encode_basestring_ascii :: "string \<Rightarrow> string" where
  "encode_basestring_ascii s = [CHR 0x22] @ concat (map escape_char s) @ [CHR 0x22]"

fun dec_nat :: "nat \<Rightarrow> string" where
  "dec_nat n = (if n < 10 then [hex_digit n] else dec_nat (n div 10) @ [hex_digit (n mod 10)])"

definition int_repr :: "int \<Rightarrow> string" where
  "int_repr i = (if i < 0 then CHR ''-'' # dec_nat (nat (- i)) else dec_nat (nat i))"

text \<open>
  What a call wrote, and the exception that ended it early, if any. \<open>then_out\<close> runs
  a second step after a first one that did not raise.
\<close>

type_synonym out = "string \<times> py_exn option"

definition emit :: "string \<Rightarrow> out" where
  "emit s = (s, None)"

definition then_out :: "out \<Rightarrow> out \<Rightarrow> out" where
  "then_out a b = (case snd a of None \<Rightarrow> (fst a @ fst b, snd b) | Some e \<Rightarrow> a)"

definition newline_indent :: "nat \<Rightarrow> string" where
  "newline_indent lvl = CHR 0x0A # replicate (4 * lvl) CHR '' ''"

text \<open>
  \<^verbatim>\<open>_iterencode\<close>, \<^verbatim>\<open>_iterencode_list\<close> and \<^verbatim>\<open>_iterencode_dict\<close>: the chunks in the order
  they are written. A value of no JSON type (here bytes) raises \<^verbatim>\<open>TypeError\<close> at the
  place it is reached, after everything before it has been written.
\<close>

definition key_text :: "pyval \<Rightarrow> string option" where
  "key_text k =
     (case k of
        PStr s \<Rightarrow> Some s
      | PFloat f \<Rightarrow> Some f
      | PBool b \<Rightarrow> Some (if b then ''true'' else ''false'')
      | PNone \<Rightarrow> Some ''null''
      | PInt i \<Rightarrow> Some (int_repr i)
      | _ \<Rightarrow> None)"

fun iterencode :: "nat \<Rightarrow> pyval \<Rightarrow> out"
  and iterencode_list :: "bool \<Rightarrow> nat \<Rightarrow> pyval list \<Rightarrow> out"
  and iterencode_dict :: "bool \<Rightarrow> nat \<Rightarrow> (pyval \<times> pyval) list \<Rightarrow> out" where
  "iterencode lvl PNone = emit ''null''"
| "iterencode lvl (PBool b) = emit (if b then ''true'' else ''false'')"
| "iterencode lvl (PInt i) = emit (int_repr i)"
| "iterencode lvl (PFloat f) = emit f"
| "iterencode lvl (PStr s) = emit (encode_basestring_ascii s)"
| "iterencode lvl (PBytes b) = ([], Some TypeError)"
| "iterencode lvl (PList xs) =
     (if xs = [] then emit ''[]''
      else then_out (emit (CHR ''['' # newline_indent (Suc lvl)))
             (then_out (iterencode_list True (Suc lvl) xs) (emit (newline_indent lvl @ '']''))))"
| "iterencode lvl (PTuple xs) =
     (if xs = [] then emit ''[]''
      else then_out (emit (CHR ''['' # newline_indent (Suc lvl)))
             (then_out (iterencode_list True (Suc lvl) xs) (emit (newline_indent lvl @ '']''))))"
| "iterencode lvl (PDict kvs) =
     (if kvs = [] then emit ''{}''
      else then_out (emit (CHR ''{'' # newline_indent (Suc lvl)))
             (then_out (iterencode_dict True (Suc lvl) kvs) (emit (newline_indent lvl @ ''}''))))"
| "iterencode_list first lvl [] = emit []"
| "iterencode_list first lvl (x # xs) =
     then_out (emit (if first then [] else CHR '','' # newline_indent lvl))
       (then_out (iterencode lvl x) (iterencode_list False lvl xs))"
| "iterencode_dict first lvl [] = emit []"
| "iterencode_dict first lvl ((k, v) # ps) =
     (case key_text k of
        None \<Rightarrow> ([], Some TypeError)
      | Some kt \<Rightarrow>
          then_out (emit ((if first then [] else CHR '','' # newline_indent lvl)
                          @ encode_basestring_ascii kt @ '': ''))
            (then_out (iterencode lvl v) (iterencode_dict False lvl ps)))"

definition json_dump :: "pyval \<Rightarrow> out" where
  "json_dump obj = iterencode 0 obj"

text \<open>
  The decoder. \<open>scan_string\<close> is \<^verbatim>\<open>py_scanstring\<close> in strict mode, after the opening
  quote. A \<^verbatim>\<open>\u\<close> escape is read when it names a code point below 256; one that names
  a code point from 256 on is outside the model, which answers \<open>None\<close> there.
\<close>

definition is_ws :: "char \<Rightarrow> bool" where
  "is_ws c = (c = CHR '' '' \<or> c = CHR 0x09 \<or> c = CHR 0x0A \<or> c = CHR 0x0D)"

definition skip_ws :: "string \<Rightarrow> string" where
  "skip_ws s = dropWhile is_ws s"

definition is_digit :: "char \<Rightarrow> bool" where
  "is_digit c = (py_ord CHR ''0'' \<le> py_ord c \<and> py_ord c \<le> py_ord CHR ''9'')"

definition digit_val :: "char \<Rightarrow> nat" where
  "digit_val c = py_ord c - py_ord CHR ''0''"

definition hex_val :: "char \<Rightarrow> nat option" where
  "hex_val c =
     (if is_digit c then Some (digit_val c)
      else if py_ord CHR ''a'' \<le> py_ord c \<and> py_ord c \<le> py_ord CHR ''f''
        then Some (py_ord c - py_ord CHR ''a'' + 10)
      else if py_ord CHR ''A'' \<le> py_ord c \<and> py_ord c \<le> py_ord CHR ''F''
        then Some (py_ord c - py_ord CHR ''A'' + 10)
      else None)"

definition unescape :: "char \<Rightarrow> char option" where
  "unescape c =
     (if c = CHR 0x22 then Some (CHR 0x22)
      else if c = CHR 0x5C then Some (CHR 0x5C)
      else if c = CHR ''/'' then Some CHR ''/''
      else if c = CHR ''b'' then Some (CHR 0x08)
      else if c = CHR ''f'' then Some (CHR 0x0C)
      else if c = CHR ''n'' then Some (CHR 0x0A)
      else if c = CHR ''r'' then Some (CHR 0x0D)
      else if c = CHR ''t'' then Some (CHR 0x09)
      else None)"

definition hex4_char :: "char \<Rightarrow> char \<Rightarrow> char \<Rightarrow> char \<Rightarrow> char option" where
  "hex4_char a b c d =
     (case (hex_val a, hex_val b, hex_val c, hex_val d) of
        (Some x, Some y, Some h, Some l) \<Rightarrow>
          if x = 0 \<and> y = 0 then Some (char_of (16 * h + l)) else None
      | _ \<Rightarrow> None)"

fun scan_string :: "string \<Rightarrow> (string \<times> string) option" where
  "scan_string [] = None"
| "scan_string (c # cs) =
     (if c = CHR 0x22 then Some ([], cs)
      else if c = CHR 0x5C then
        (case cs of
           [] \<Rightarrow> None
         | e # cs' \<Rightarrow>
             if e = CHR ''u'' then
               (case cs' of
                  a # b # h # l # cs'' \<Rightarrow>
                    (case hex4_char a b h l of
                       None \<Rightarrow> None
                     | Some ch \<Rightarrow>
                         map_option (\<lambda>(str, rest). (ch # str, rest)) (scan_string cs''))
                | _ \<Rightarrow> None)
             else
               (case unescape e of
                  None \<Rightarrow> None
                | Some ch \<Rightarrow> map_option (\<lambda>(str, rest). (ch # str, rest)) (scan_string cs')))
      else if py_ord c < 0x20 then None
      else map_option (\<lambda>(str, rest). (c # str, rest)) (scan_string cs))"

text \<open>
  \<^verbatim>\<open>NUMBER_RE\<close>: an integer part, then a fraction and an exponent, each taken only when
  it is complete. A literal with neither is an int, any other a float.
\<close>

definition nat_of_digits :: "string \<Rightarrow> nat" where
  "nat_of_digits ds = foldl (\<lambda>n c. 10 * n + digit_val c) 0 ds"

definition scan_int_part :: "string \<Rightarrow> (string \<times> string) option" where
  "scan_int_part s =
     (case s of
        [] \<Rightarrow> None
      | c # cs \<Rightarrow>
          if c = CHR ''0'' then Some ([c], cs)
          else if is_digit c then Some (c # takeWhile is_digit cs, dropWhile is_digit cs)
          else None)"

definition scan_frac :: "string \<Rightarrow> string \<times> string" where
  "scan_frac s =
     (case s of
        c # d # cs \<Rightarrow>
          if c = CHR ''.'' \<and> is_digit d
          then (c # d # takeWhile is_digit cs, dropWhile is_digit cs) else ([], s)
      | _ \<Rightarrow> ([], s))"

definition scan_exp :: "string \<Rightarrow> string \<times> string" where
  "scan_exp s =
     (case s of
        c # cs \<Rightarrow>
          if c = CHR ''e'' \<or> c = CHR ''E'' then
            (case cs of
               d # ds \<Rightarrow>
                 if is_digit d then (c # d # takeWhile is_digit ds, dropWhile is_digit ds)
                 else if d = CHR ''+'' \<or> d = CHR ''-'' then
                   (case ds of
                      d' # ds' \<Rightarrow>
                        if is_digit d'
                        then (c # d # d' # takeWhile is_digit ds', dropWhile is_digit ds')
                        else ([], s)
                    | [] \<Rightarrow> ([], s))
                 else ([], s)
             | [] \<Rightarrow> ([], s))
          else ([], s)
      | [] \<Rightarrow> ([], s))"

definition scan_number :: "string \<Rightarrow> (pyval \<times> string) option" where
  "scan_number s =
     (let (sign, s1) = (case s of c # cs \<Rightarrow> if c = CHR ''-'' then (''-'', cs) else ([], s) | [] \<Rightarrow> ([], s))
      in case scan_int_part s1 of
           None \<Rightarrow> None
         | Some (ds, s2) \<Rightarrow>
             (let (frac, s3) = scan_frac s2; (ex, s4) = scan_exp s3
              in if frac = [] \<and> ex = []
                 then Some (PInt (if sign = [] then int (nat_of_digits ds) else - int (nat_of_digits ds)), s2)
                 else Some (PFloat (sign @ ds @ frac @ ex), s4)))"

definition scan_word :: "string \<Rightarrow> pyval \<Rightarrow> string \<Rightarrow> (pyval \<times> string) option" where
  "scan_word w v s = (if prefix w s then Some (v, drop (length w) s) else None)"

text \<open>\<^verbatim>\<open>dict(pairs)\<close>: a repeated key keeps its first place and takes its last value.\<close>

definition dict_of_pairs :: "(pyval \<times> pyval) list \<Rightarrow> (pyval \<times> pyval) list" where
  "dict_of_pairs ps = foldl (\<lambda>d (k, v). AList.update k v d) [] ps"

text \<open>
  \<^verbatim>\<open>scan_once\<close>, \<^verbatim>\<open>JSONArray\<close> and \<^verbatim>\<open>JSONObject\<close>. The first argument bounds the number of
  nested calls. Every call but the first comes after at least one more character has
  been read, so \<open>json_load\<close> starts with twice the length of the text and two more.
\<close>

fun scan_once :: "nat \<Rightarrow> string \<Rightarrow> (pyval \<times> string) option"
  and scan_array :: "nat \<Rightarrow> string \<Rightarrow> (pyval list \<times> string) option"
  and scan_object :: "nat \<Rightarrow> string \<Rightarrow> ((pyval \<times> pyval) list \<times> string) option" where
  "scan_once 0 s = None"
| "scan_once (Suc n) s =
     (case s of
        [] \<Rightarrow> None
      | c # cs \<Rightarrow>
          if c = CHR 0x22 then map_option (\<lambda>(str, rest). (PStr str, rest)) (scan_string cs)
          else if c = CHR ''{'' then
            (case skip_ws cs of
               [] \<Rightarrow> None
             | c' # r \<Rightarrow>
                 if c' = CHR ''}'' then Some (PDict [], r)
                 else map_option (\<lambda>(ps, rest). (PDict (dict_of_pairs ps), rest))
                        (scan_object n (c' # r)))
          else if c = CHR ''['' then
            (case skip_ws cs of
               [] \<Rightarrow> None
             | c' # r \<Rightarrow>
                 if c' = CHR '']'' then Some (PList [], r)
                 else map_option (\<lambda>(vs, rest). (PList vs, rest)) (scan_array n (c' # r)))
          else if c = CHR ''n'' then scan_word ''null'' PNone s
          else if c = CHR ''t'' then scan_word ''true'' (PBool True) s
          else if c = CHR ''f'' then scan_word ''false'' (PBool False) s
          else case scan_number s of
                 Some r \<Rightarrow> Some r
               | None \<Rightarrow>
                   if c = CHR ''N'' then scan_word ''NaN'' (PFloat ''NaN'') s
                   else if c = CHR ''I'' then scan_word ''Infinity'' (PFloat ''Infinity'') s
                   else if c = CHR ''-'' then scan_word ''-Infinity'' (PFloat ''-Infinity'') s
                   else None)"
| "scan_array 0 s = None"
| "scan_array (Suc n) s =
     (case scan_once n s of
        None \<Rightarrow> None
      | Some (v, r) \<Rightarrow>
          (case skip_ws r of
             [] \<Rightarrow> None
           | c # r' \<Rightarrow>
               if c = CHR '']'' then Some ([v], r')
               else if c = CHR '','' then
                 map_option (\<lambda>(vs, rest). (v # vs, rest)) (scan_array n (skip_ws r'))
               else None))"
| "scan_object 0 s = None"
| "scan_object (Suc n) s =
     (case s of
        [] \<Rightarrow> None
      | q # s' \<Rightarrow>
          if q \<noteq> CHR 0x22 then None
          else
            (case scan_string s' of
               None \<Rightarrow> None
             | Some (k, r) \<Rightarrow>
                 (case skip_ws r of
                    [] \<Rightarrow> None
                  | c # r1 \<Rightarrow>
                      if c \<noteq> CHR '':'' then None
                      else
                        (case scan_once n (skip_ws r1) of
                           None \<Rightarrow> None
                         | Some (v, r2) \<Rightarrow>
                             (case skip_ws r2 of
                                [] \<Rightarrow> None
                              | c' # r3 \<Rightarrow>
                                  if c' = CHR ''}'' then Some ([(PStr k, v)], r3)
                                  else if c' = CHR '','' then
                                    map_option (\<lambda>(ps, rest). ((PStr k, v) # ps, rest))
                                      (scan_object n (skip_ws r3))
                                  else None)))))"

definition json_load :: "string \<Rightarrow> pyval option" where
  "json_load text =
     (case scan_once (2 * length text + 2) (skip_ws text) of
        None \<Rightarrow> None
      | Some (v, rest) \<Rightarrow> if skip_ws rest = [] then Some v else None)"

subsection \<open>Documents that the codec writes and reads back\<close>

text \<open>
  The documents that JSON represents exactly: \<^verbatim>\<open>None\<close>, booleans, integers, strings,
  lists of such documents, and dictionaries of such documents under string keys. Floats,
  bytes and tuples are left out: the first is written in a decimal notation this model
  does not follow digit by digit, the second is refused by the encoder, the third comes
  back as a list.
\<close>

fun is_str :: "pyval \<Rightarrow> bool" where
  "is_str (PStr s) = True"
| "is_str v = False"

fun json_value :: "pyval \<Rightarrow> bool" where
  "json_value PNone = True"
| "json_value (PBool b) = True"
| "json_value (PInt i) = True"
| "json_value (PStr s) = True"
| "json_value (PList xs) = (\<forall>x \<in> set xs. json_value x)"
| "json_value (PDict kvs) =
     ((\<forall>kv \<in> set kvs. is_str (fst kv) \<and> json_value (snd kv)) \<and> distinct (map fst kvs))"
| "json_value (PFloat f) = False"
| "json_value (PBytes b) = False"
| "json_value (PTuple xs) = False"

text \<open>
  The text of a document at a nesting level, of the elements of a list and of the entries
  of a dictionary; \<open>escaped\<close> is the inside of a string literal.
\<close>

definition escaped :: "string \<Rightarrow> string" where
  "escaped s = concat (map escape_char s)"

definition enc :: "nat \<Rightarrow> pyval \<Rightarrow> string" where
  "enc lvl v = fst (iterencode lvl v)"

definition enc_items :: "nat \<Rightarrow> pyval list \<Rightarrow> string" where
  "enc_items lvl xs = fst (iterencode_list True lvl xs)"

definition enc_pairs :: "nat \<Rightarrow> (pyval \<times> pyval) list \<Rightarrow> string" where
  "enc_pairs lvl kvs = fst (iterencode_dict True lvl kvs)"

text \<open>
  What the decoder meets around an encoded document: a document ends at the end of the
  text, at a comma or at a line break, and it starts with a character that is neither
  white space nor a closing bracket. \<open>reads_back v\<close> says that the decoder, given twice the
  length of the text of \<open>v\<close> as fuel, reads \<open>v\<close> back from that text and leaves what
  comes after it.
\<close>

definition ends_value :: "string \<Rightarrow> bool" where
  "ends_value rest = (case rest of [] \<Rightarrow> True | c # cs \<Rightarrow> c = CHR '','' \<or> c = CHR 0x0A)"

definition starts_value :: "char \<Rightarrow> bool" where
  "starts_value c = (\<not> is_ws c \<and> c \<noteq> CHR '']'' \<and> c \<noteq> CHR ''}'')"

definition reads_back :: "pyval \<Rightarrow> bool" where
  "reads_back v = (\<forall>lvl rest n. ends_value rest \<longrightarrow> 2 * length (enc lvl v) \<le> n \<longrightarrow>
             scan_once n (enc lvl v @ rest) = Some (v, rest))"

text \<open>
  The schema in the words of the specification: the four top-level fields, the two
  fields of \<open>settings\<close>, the two of \<open>ui\<close> and the two of \<open>paths\<close>, each looked up by
  name and tested for its type.
\<close>

definition has_field :: "(pyval \<times> pyval) list \<Rightarrow> string \<Rightarrow> pytype \<Rightarrow> bool" where
  "has_field kvs k t = (case map_of kvs (PStr k) of None \<Rightarrow> False | Some v \<Rightarrow> isinstance v t)"

definition sub_dict :: "(pyval \<times> pyval) list \<Rightarrow> string \<Rightarrow> (pyval \<times> pyval) list" where
  "sub_dict kvs k = (case map_of kvs (PStr k) of Some (PDict sub) \<Rightarrow> sub | _ \<Rightarrow> [])"

definition schema_ok :: "pyval \<Rightarrow> bool" where
  "schema_ok d =
     (case d of
        PDict kvs \<Rightarrow>
          has_field kvs ''appName'' Tstr \<and> has_field kvs ''version'' Tstr \<and>
          has_field kvs ''settings'' Tdict \<and> has_field kvs ''paths'' Tdict \<and>
          has_field (sub_dict kvs ''settings'') ''ui'' Tdict \<and>
          has_field (sub_dict kvs ''settings'') ''logLevel'' Tstr \<and>
          has_field (sub_dict (sub_dict kvs ''settings'') ''ui'') ''gui'' Tbool \<and>
          has_field (sub_dict (sub_dict kvs ''settings'') ''ui'') ''theme'' Tstr \<and>
          has_field (sub_dict kvs ''paths'') ''cacheDirectory'' Tstr \<and>
          has_field (sub_dict kvs ''paths'') ''logFile'' Tstr
      | _ \<Rightarrow> False)"

text \<open>
  An additional key \<open>k\<close> with value \<open>v\<close>, put into the document itself or into its
  \<open>settings\<close>, \<open>ui\<close> or \<open>paths\<close> object.
\<close>

datatype level = Top | Settings | Ui | Paths

fun level_keys :: "level \<Rightarrow> string list" where
  "level_keys Top = map fst required_keys"
| "level_keys Settings = map fst settings_keys"
| "level_keys Ui = map fst ui_keys"
| "level_keys Paths = map fst paths_keys"

definition put :: "string \<Rightarrow> pyval \<Rightarrow> (pyval \<times> pyval) list \<Rightarrow> (pyval \<times> pyval) list" where
  "put k v kvs = AList.update (PStr k) v kvs"

fun with_extra :: "level \<Rightarrow> string \<Rightarrow> pyval \<Rightarrow> (pyval \<times> pyval) list \<Rightarrow> (pyval \<times> pyval) list" where
  "with_extra Top k v kvs = put k v kvs"
| "with_extra Settings k v kvs =
     put ''settings'' (PDict (put k v (sub_dict kvs ''settings''))) kvs"
| "with_extra Ui k v kvs =
     put ''settings''
       (PDict (put ''ui''
          (PDict (put k v (sub_dict (sub_dict kvs ''settings'') ''ui'')))
          (sub_dict kvs ''settings''))) kvs"
| "with_extra Paths k v kvs =
     put ''paths'' (PDict (put k v (sub_dict kvs ''paths''))) kvs"

fun extra_of :: "level \<Rightarrow> string \<Rightarrow> (pyval \<times> pyval) list \<Rightarrow> pyval option" where
  "extra_of Top k kvs = map_of kvs (PStr k)"
| "extra_of Settings k kvs = map_of (sub_dict kvs ''settings'') (PStr k)"
| "extra_of Ui k kvs = map_of (sub_dict (sub_dict kvs ''settings'') ''ui'') (PStr k)"
| "extra_of Paths k kvs = map_of (sub_dict kvs ''paths'') (PStr k)"

subsection \<open>Example documents\<close>

definition example_config :: "(pyval \<times> pyval) list" where
  "example_config =
     [(PStr ''appName'', PStr ''CacheLauncher''),
      (PStr ''version'', PStr ''1.0''),
      (PStr ''settings'',
         PDict [(PStr ''ui'', PDict [(PStr ''gui'', PBool True), (PStr ''theme'', PStr ''dark'')]),
                (PStr ''logLevel'', PStr ''info'')]),
      (PStr ''paths'',
         PDict [(PStr ''cacheDirectory'', PStr ''cache''), (PStr ''logFile'', PStr ''app.log'')])]"

definition extended_config :: "(pyval \<times> pyval) list" where
  "extended_config = with_extra Ui ''font'' (PInt 12) example_config"

definition bytes_config :: "(pyval \<times> pyval) list" where
  "bytes_config = (PStr ''extra'', PBytes ''x'') # example_config"

definition tuple_config :: "(pyval \<times> pyval) list" where
  "tuple_config = example_config @ [(PStr ''recent'', PTuple [])]"

definition icon_config :: "(pyval \<times> pyval) list" where
  "icon_config = with_extra Ui ''icon'' (PBytes ''x'') example_config"

definition old_file :: filesys where
  "old_file = \<lparr>config_json = Some ''{}''\<rparr>"

section \<open>NinjaRMMAPI\<close>

subsection \<open>Floats\<close>

text \<open>
  A Python float is an IEEE 754 double. Every finite double is a whole number of steps of
  \<^verbatim>\<open>2**-1074\<close>, the smallest positive double, so \<open>Finite k\<close> is the double of value
  \<open>k\<close> times \<^verbatim>\<open>2**-1074\<close>: \<open>float_unit\<close> steps make 1, and \<open>float_limit\<close> steps make
  \<^verbatim>\<open>2**1024\<close>, the bound every finite double is below. The two zeros are one value
  here: they compare equal, and the program only adds and compares.
\<close>

datatype pyfloat = Finite int | PosInf | NegInf | NaN

definition float_unit :: int where
  "float_unit = 2 ^ 1074"

definition float_limit :: int where
  "float_limit = 2 ^ 1024 * float_unit"

text \<open>
  Rounding to nearest, ties to even: a positive number of more than 53 bits keeps its
  leading 53, goes up when what is cut off is more than half a step of the last bit kept,
  and on exactly half goes to the even neighbour; a negative number is rounded as its
  magnitude. \<open>bit_length\<close> is \<^verbatim>\<open>int.bit_length\<close> on the positive numbers.
\<close>

function bit_length :: "int \<Rightarrow> nat" where
  "bit_length k = (if k \<le> 0 then 0 else Suc (bit_length (k div 2)))"
  by pat_completeness auto
termination
  by (relation "measure nat") auto

definition keep53 :: "int \<Rightarrow> int" where
  "keep53 a =
     (let s = bit_length a - 53; q = a div 2 ^ s; r = a mod 2 ^ s
      in (if 2 ^ s < 2 * r \<or> (2 * r = 2 ^ s \<and> odd q) then q + 1 else q) * 2 ^ s)"

definition round53 :: "int \<Rightarrow> int" where
  "round53 k = (if k < 0 then - keep53 (- k) else keep53 k)"

text \<open>
  The double an operation delivers when its exact result is \<open>k\<close> steps: the rounded
  result, or an infinity when that reaches \<^verbatim>\<open>2**1024\<close>.
\<close>

definition to_double :: "int \<Rightarrow> pyfloat" where
  "to_double k =
     (let r = round53 k
      in if float_limit \<le> r then PosInf else if r \<le> - float_limit then NegInf else Finite r)"

text \<open>
  \<^verbatim>\<open>x + y\<close> and \<^verbatim>\<open>x > y\<close> on floats. Addition does not raise: it overflows to an
  infinity. A comparison with \<^verbatim>\<open>nan\<close> is false.
\<close>

fun float_add :: "pyfloat \<Rightarrow> pyfloat \<Rightarrow> pyfloat" where
  "float_add (Finite a) (Finite b) = to_double (a + b)"
| "float_add NaN y = NaN"
| "float_add x NaN = NaN"
| "float_add PosInf NegInf = NaN"
| "float_add NegInf PosInf = NaN"
| "float_add PosInf y = PosInf"
| "float_add NegInf y = NegInf"
| "float_add x PosInf = PosInf"
| "float_add x NegInf = NegInf"

fun float_gt :: "pyfloat \<Rightarrow> pyfloat \<Rightarrow> bool" where
  "float_gt (Finite a) (Finite b) = (b < a)"
| "float_gt NaN y = False"
| "float_gt x NaN = False"
| "float_gt PosInf PosInf = False"
| "float_gt PosInf y = True"
| "float_gt x PosInf = False"
| "float_gt NegInf y = False"
| "float_gt x NegInf = True"

text \<open>
  The conversion of an integer operand of a float operation. It rounds as above and
  raises \<^verbatim>\<open>OverflowError\<close> ("int too large to convert to float") where the rounded
  value is not a finite double.
\<close>

definition float_of_int :: "int \<Rightarrow> py_exn + pyfloat" where
  "float_of_int i =
     (case to_double (i * float_unit) of
        Finite k \<Rightarrow> Inr (Finite k)
      | _ \<Rightarrow> Inl OverflowError)"

text \<open>
  For the statements about floats: the number of seconds a finite double stands for;
  the numbers of at most 53 significant bits; the step counts that are the value of a
  finite double; and the double of a whole number.
\<close>

definition seconds :: "int \<Rightarrow> real" where
  "seconds k = real_of_int k / real_of_int float_unit"

definition fits53 :: "int \<Rightarrow> bool" where
  "fits53 d = (\<exists>m e. \<bar>d\<bar> = m * 2 ^ e \<and> m < 2 ^ 53)"

definition representable :: "int \<Rightarrow> bool" where
  "representable k =
     (\<bar>k\<bar> < float_limit \<and> \<bar>k\<bar> mod 2 ^ (bit_length \<bar>k\<bar> - 53) = 0)"

definition whole :: "int \<Rightarrow> pyfloat" where
  "whole i = Finite (i * float_unit)"

subsection \<open>The credential\<close>

text \<open>
  The dataclass \<^verbatim>\<open>OAUTHResponse\<close>, with the field types it declares: \<^verbatim>\<open>expires_in\<close> is an
  unbounded integer, \<^verbatim>\<open>obtained_at\<close> a float. \<open>is_expired\<close> takes the reading of
  \<^verbatim>\<open>time.time()\<close> it compares against; the sum on the right of the comparison converts
  \<^verbatim>\<open>expires_in\<close> to a float, which can raise, and adds two floats.
\<close>

record oauth_response =
  access_token :: string
  token_type :: string
  expires_in :: int
  scope :: string
  obtained_at :: pyfloat

definition is_expired :: "pyfloat \<Rightarrow> oauth_response \<Rightarrow> py_exn + bool" where
  "is_expired now c =
     exn_bind (float_of_int (expires_in c)) (\<lambda>x.
       Inr (float_gt now (float_add (obtained_at c) x)))"

subsection \<open>The world outside the client\<close>

text \<open>
  The clock, the network and the store of credential objects. Every call of
  \<^verbatim>\<open>time.time()\<close> takes the next reading of the clock. Every request the client issues
  is appended to \<open>sent\<close>; what comes back is decided by the servers, which see all
  requests issued so far. A reply is an exception of the \<^verbatim>\<open>requests\<close> library or a
  status code with the JSON body, if the body is JSON. The body of a token reply is read
  field by field, so it is given as the four fields the client reads, each absent or of
  the type the dataclass declares. Credential objects live in \<open>heap\<close> at the addresses
  below \<open>next_addr\<close>; the client refers to its credential by address.
\<close>

datatype http_verb = GET | POST | PUT | DELETE | PATCH

datatype net_event =
    TokenPost string "(string \<times> string) list"
  | ApiCall http_verb string "(string \<times> string) list" pyval "(string \<times> pyval) list"

fun is_token_post :: "net_event \<Rightarrow> bool" where
  "is_token_post (TokenPost u d) = True"
| "is_token_post (ApiCall m u h t k) = False"

record token_body =
  tb_access_token :: "string option"
  tb_token_type :: "string option"
  tb_expires_in :: "int option"
  tb_scope :: "string option"

datatype 'b http_result = Raised py_exn | Response nat "'b option"

record world =
  clock :: "nat \<Rightarrow> pyfloat"
  ticks :: nat
  token_server :: "net_event list \<Rightarrow> token_body http_result"
  api_server :: "net_event list \<Rightarrow> pyval http_result"
  sent :: "net_event list"
  heap :: "nat \<Rightarrow> oauth_response"
  next_addr :: nat

definition time_time :: "world \<Rightarrow> pyfloat \<times> world" where
  "time_time w = (clock w (ticks w), w\<lparr>ticks := Suc (ticks w)\<rparr>)"

definition raise_for_status :: "nat \<Rightarrow> py_exn + unit" where
  "raise_for_status status = (if 400 \<le> status \<and> status < 600 then Inl (HTTPError status) else Inr ())"

definition json_field :: "string \<Rightarrow> 'a option \<Rightarrow> py_exn + 'a" where
  "json_field k field = (case field of None \<Rightarrow> Inl (KeyError (PStr k)) | Some x \<Rightarrow> Inr x)"

subsection \<open>The client\<close>

record ninja_api =
  environment :: string
  client_id :: string
  client_secret :: string
  base_url :: string
  docs_path :: string
  token_url :: string
  oauth :: nat
  documentation :: pyval

text \<open>
  \<^verbatim>\<open>_request_credentials\<close>: one POST to the token endpoint, then a new \<^verbatim>\<open>OAUTHResponse\<close>
  object, stamped with the clock when it is created. The result is its address.
\<close>

definition credentials_payload :: "string \<Rightarrow> string \<Rightarrow> (string \<times> string) list" where
  "credentials_payload cid secret =
     [(''grant_type'', ''client_credentials''), (''client_id'', cid),
      (''client_secret'', secret), (''scope'', ''monitoring management control'')]"

definition request_credentials :: "string \<Rightarrow> string \<Rightarrow> string \<Rightarrow> world \<Rightarrow> (py_exn + nat) \<times> world" where
  "request_credentials turl cid secret w =
     (let payload = credentials_payload cid secret;
          w1 = w\<lparr>sent := sent w @ [TokenPost turl payload]\<rparr>
      in case token_server w1 (sent w1) of
           Raised e \<Rightarrow> (Inl e, w1)
         | Response status body \<Rightarrow>
             (case exn_bind (raise_for_status status) (\<lambda>_.
                     case body of
                       None \<Rightarrow> Inl JSONDecodeError
                     | Some b \<Rightarrow>
                         exn_bind (json_field ''access_token'' (tb_access_token b)) (\<lambda>tok.
                         exn_bind (json_field ''token_type'' (tb_token_type b)) (\<lambda>tt.
                         exn_bind (json_field ''expires_in'' (tb_expires_in b)) (\<lambda>ei.
                         exn_bind (json_field ''scope'' (tb_scope b)) (\<lambda>sc.
                           Inr (tok, tt, ei, sc)))))) of
                Inl e \<Rightarrow> (Inl e, w1)
              | Inr (tok, tt, ei, sc) \<Rightarrow>
                  (let (now, w2) = time_time w1;
                       obj = \<lparr>access_token = tok, token_type = tt, expires_in = ei, scope = sc,
                              obtained_at = now\<rparr>;
                       a = next_addr w2
                   in (Inr a, w2\<lparr>heap := (heap w2)(a := obj), next_addr := Suc a\<rparr>))))"

text \<open>
  \<^verbatim>\<open>_authenticate\<close>: on an expired credential, \<^verbatim>\<open>self._oauth\<close> is assigned the object a
  new credential request returns; when that request raises, the assignment does not
  happen. An exception of \<open>is_expired\<close> ends the call after the clock was read.
\<close>

definition authenticate :: "ninja_api \<Rightarrow> world \<Rightarrow> (py_exn + unit) \<times> ninja_api \<times> world" where
  "authenticate self w =
     (let (now, w1) = time_time w
      in case is_expired now (heap w1 (oauth self)) of
           Inl e \<Rightarrow> (Inl e, self, w1)
         | Inr expired \<Rightarrow>
             if expired then
               (case request_credentials (token_url self) (client_id self) (client_secret self) w1 of
                  (Inl e, w2) \<Rightarrow> (Inl e, self, w2)
                | (Inr a, w2) \<Rightarrow> (Inr (), self\<lparr>oauth := a\<rparr>, w2))
             else (Inr (), self, w1))"

definition join_str :: "string \<Rightarrow> string list \<Rightarrow> string" where
  "join_str sep xs = (case xs of [] \<Rightarrow> [] | x # rest \<Rightarrow> foldl (\<lambda>acc y. acc @ sep @ y) x rest)"

text \<open>\<^verbatim>\<open>urljoin\<close> is the library's; it is a parameter of everything that builds a URL.\<close>

definition url_base_join :: "(string \<Rightarrow> string \<Rightarrow> string) \<Rightarrow> ninja_api \<Rightarrow> string list \<Rightarrow> string" where
  "url_base_join urljoin self args = urljoin (base_url self) (join_str ''/'' args)"

text \<open>
  \<^verbatim>\<open>request\<close>. The keyword arguments of the caller are \<open>kwargs\<close>; \<^verbatim>\<open>timeout\<close> is taken out
  of them, and one named \<^verbatim>\<open>url\<close> or \<^verbatim>\<open>headers\<close> makes the call of the library function
  a \<^verbatim>\<open>TypeError\<close> (the argument is given twice) before anything is sent.
\<close>

definition auth_headers :: "oauth_response \<Rightarrow> (string \<times> string) list" where
  "auth_headers cred =
     [(''accept'', ''application/json''),
      (''Authorization'', token_type cred @ '' '' @ access_token cred)]"

definition request ::
  "(string \<Rightarrow> string \<Rightarrow> string) \<Rightarrow> ninja_api \<Rightarrow> http_verb \<Rightarrow> string \<Rightarrow> (string \<times> pyval) list \<Rightarrow> world
     \<Rightarrow> (py_exn + pyval) \<times> ninja_api \<times> world" where
  "request urljoin self verb path kwargs w =
     (case authenticate self w of
        (Inl e, self1, w1) \<Rightarrow> (Inl e, self1, w1)
      | (Inr _, self1, w1) \<Rightarrow>
          (let url = url_base_join urljoin self1 [path];
               cred = heap w1 (oauth self1);
               headers = auth_headers cred;
               timeout = (case map_of kwargs ''timeout'' of None \<Rightarrow> PInt 10 | Some t \<Rightarrow> t);
               rest = AList.delete ''timeout'' kwargs
           in if ''url'' \<in> set (map fst rest) \<or> ''headers'' \<in> set (map fst rest)
              then (Inl TypeError, self1, w1)
              else
                (let w2 = w1\<lparr>sent := sent w1 @ [ApiCall verb url headers timeout rest]\<rparr>
                 in case api_server w2 (sent w2) of
                      Raised e \<Rightarrow> (Inl e, self1, w2)
                    | Response status body \<Rightarrow>
                        (exn_bind (raise_for_status status) (\<lambda>_.
                           case body of None \<Rightarrow> Inl JSONDecodeError | Some v \<Rightarrow> Inr v),
                         self1, w2))))"

definition refresh_documentation ::
  "(string \<Rightarrow> string \<Rightarrow> string) \<Rightarrow> ninja_api \<Rightarrow> world \<Rightarrow> (py_exn + unit) \<times> ninja_api \<times> world" where
  "refresh_documentation urljoin self w =
     (case request urljoin self GET (docs_path self) [] w of
        (Inl e, self1, w1) \<Rightarrow> (Inl e, self1, w1)
      | (Inr doc, self1, w1) \<Rightarrow> (Inr (), self1\<lparr>documentation := doc\<rparr>, w1))"

subsection \<open>Construction\<close>

text \<open>
  The process environment maps a variable to its value when it is set. \<^verbatim>\<open>not value\<close>
  holds of an unset variable and of one set to the empty string.
\<close>

type_synonym environ = "string \<Rightarrow> string option"

definition falsy :: "string option \<Rightarrow> bool" where
  "falsy v = (case v of None \<Rightarrow> True | Some s \<Rightarrow> s = [])"

definition env_names :: "string list" where
  "env_names = [''NINJA_ENVIRONMENT'', ''NINJA_CLIENT_ID'', ''NINJA_CLIENT_SECRET'',
                ''NINJA_BASE_URL'', ''NINJA_DOCS_PATH'']"

definition missing_env_vars :: "environ \<Rightarrow> string list" where
  "missing_env_vars env = filter (\<lambda>var. falsy (env var)) env_names"

definition valid_environments :: "string list" where
  "valid_environments = [''app'', ''us2'', ''ca'', ''eu'', ''oc'']"

definition missing_error :: "string list \<Rightarrow> py_exn" where
  "missing_error vars =
     ValueError (''The following environment variables are not set: '' @ join_str '', '' vars)"

definition invalid_environment_error :: py_exn where
  "invalid_environment_error =
     ValueError (''Invalid NINJA_ENVIRONMENT. Must be one of: '' @ join_str '', '' valid_environments)"

text \<open>
  \<^verbatim>\<open>__init__\<close>. When no variable is missing all five are set, so the last case of the
  pattern match is never taken.
\<close>

definition ninja_init ::
  "(string \<Rightarrow> string \<Rightarrow> string) \<Rightarrow> environ \<Rightarrow> world \<Rightarrow> (py_exn + ninja_api) \<times> world" where
  "ninja_init urljoin env w =
     (if missing_env_vars env \<noteq> [] then (Inl (missing_error (missing_env_vars env)), w)
      else
        case (env ''NINJA_ENVIRONMENT'', env ''NINJA_CLIENT_ID'', env ''NINJA_CLIENT_SECRET'',
              env ''NINJA_BASE_URL'', env ''NINJA_DOCS_PATH'') of
          (Some e, Some cid, Some secret, Some base, Some docs) \<Rightarrow>
            if e \<notin> set valid_environments then (Inl invalid_environment_error, w)
            else
              (let turl = ''https://'' @ e @ ''.ninjarmm.com/ws/oauth/token''
               in case request_credentials turl cid secret w of
                    (Inl x, w1) \<Rightarrow> (Inl x, w1)
                  | (Inr a, w1) \<Rightarrow>
                      (let self = \<lparr>environment = e, client_id = cid, client_secret = secret,
                                   base_url = base, docs_path = docs, token_url = turl,
                                   oauth = a, documentation = PDict []\<rparr>
                       in case refresh_documentation urljoin self w1 of
                            (Inl x, self1, w2) \<Rightarrow> (Inl x, w2)
                          | (Inr _, self1, w2) \<Rightarrow> (Inr self1, w2)))
        | _ \<Rightarrow> (Inl (missing_error (missing_env_vars env)), w))"

subsection \<open>The documentation index\<close>

text \<open>
  More of Python's dynamic operations, as \<open>get_sorted_docs\<close> uses them: \<^verbatim>\<open>d.items()\<close>,
  iteration, and \<^verbatim>\<open>s.lower()\<close>, which strings and bytes have. A \<^verbatim>\<open>for\<close> loop whose body
  may raise is \<open>for_each\<close>: it stops at the first exception.
\<close>

fun py_items :: "pyval \<Rightarrow> py_exn + (pyval \<times> pyval) list" where
  "py_items (PDict kvs) = Inr kvs"
| "py_items v = Inl AttributeError"

fun py_iter :: "pyval \<Rightarrow> py_exn + pyval list" where
  "py_iter (PList xs) = Inr xs"
| "py_iter (PTuple xs) = Inr xs"
| "py_iter (PDict kvs) = Inr (map fst kvs)"
| "py_iter (PStr s) = Inr (map (\<lambda>c. PStr [c]) s)"
| "py_iter (PBytes b) = Inr (map (\<lambda>c. PInt (int (py_ord c))) b)"
| "py_iter v = Inl TypeError"

definition lower_char :: "char \<Rightarrow> char" where
  "lower_char c =
     (if (65 \<le> py_ord c \<and> py_ord c \<le> 90) \<or> (192 \<le> py_ord c \<and> py_ord c \<le> 222 \<and> py_ord c \<noteq> 215)
      then char_of (py_ord c + 32) else c)"

definition lower_ascii :: "char \<Rightarrow> char" where
  "lower_ascii c = (if 65 \<le> py_ord c \<and> py_ord c \<le> 90 then char_of (py_ord c + 32) else c)"

definition str_lower :: "string \<Rightarrow> string" where
  "str_lower s = map lower_char s"

fun py_lower :: "pyval \<Rightarrow> py_exn + pyval" where
  "py_lower (PStr s) = Inr (PStr (str_lower s))"
| "py_lower (PBytes b) = Inr (PBytes (map lower_ascii b))"
| "py_lower v = Inl AttributeError"

fun for_each :: "('a \<Rightarrow> 's \<Rightarrow> py_exn + 's) \<Rightarrow> 'a list \<Rightarrow> 's \<Rightarrow> py_exn + 's" where
  "for_each body [] st = Inr st"
| "for_each body (x # xs) st = exn_bind (body x st) (for_each body xs)"

text \<open>
  \<^verbatim>\<open>sorted_docs["paths"]\<close> while it is built: for every key the description and the
  \<^verbatim>\<open>methods\<close> dict, which maps a method to a dict from operation identifier to record.
  These dicts are created by \<open>get_sorted_docs\<close> itself; \<open>index_json\<close> is the value they
  make up.
\<close>

type_synonym op_table = "(pyval \<times> pyval) list"
type_synonym method_table = "(pyval \<times> op_table) list"
type_synonym tag_index = "(pyval \<times> pyval \<times> method_table) list"

definition index_json :: "tag_index \<Rightarrow> pyval" where
  "index_json idx =
     PDict (map (\<lambda>(key, desc, methods).
       (key, PDict [(PStr ''description'', desc),
                    (PStr ''methods'', PDict (map (\<lambda>(m, ops). (m, PDict ops)) methods))])) idx)"

text \<open>One round of the dict comprehension over \<^verbatim>\<open>self.documentation["tags"]\<close>.\<close>

definition tag_entry :: "pyval \<Rightarrow> tag_index \<Rightarrow> py_exn + tag_index" where
  "tag_entry tag idx =
     exn_bind (py_getitem tag (PStr ''name'')) (\<lambda>name.
     exn_bind (py_lower name) (\<lambda>key.
     exn_bind (py_getitem tag (PStr ''description'')) (\<lambda>desc.
       Inr (AList.update key (desc, []) idx))))"

definition operation_record :: "pyval \<Rightarrow> pyval \<Rightarrow> py_exn + pyval" where
  "operation_record path details =
     exn_bind (py_get details ''summary'' (PStr [])) (\<lambda>summary.
     exn_bind (py_get details ''description'' (PStr [])) (\<lambda>description.
     exn_bind (py_get details ''parameters'' (PList [])) (\<lambda>parameters.
     exn_bind (py_get details ''requestBody'' (PDict [])) (\<lambda>request_body.
     exn_bind (py_get details ''responses'' (PDict [])) (\<lambda>responses.
       Inr (PDict [(PStr ''path'', path), (PStr ''summary'', summary),
                   (PStr ''description'', description), (PStr ''parameters'', parameters),
                   (PStr ''requestBody'', request_body), (PStr ''responses'', responses)]))))))"

text \<open>
  The body of the innermost loop, one assignment. Python evaluates its right-hand side
  first, then the target from left to right: the entry of the lowercased tag (a
  \<^verbatim>\<open>KeyError\<close> when there is none), \<^verbatim>\<open>setdefault(method, {})\<close>, the operation identifier,
  and last the store, which needs a hashable key.
\<close>

definition add_operation :: "pyval \<Rightarrow> pyval \<Rightarrow> pyval \<Rightarrow> pyval \<Rightarrow> tag_index \<Rightarrow> py_exn + tag_index" where
  "add_operation path meth details tag idx =
     exn_bind (operation_record path details) (\<lambda>entry.
     exn_bind (py_lower tag) (\<lambda>key.
       case map_of idx key of
         None \<Rightarrow> Inl (KeyError key)
       | Some (desc, methods) \<Rightarrow>
           (let ops = (case map_of methods meth of None \<Rightarrow> [] | Some t \<Rightarrow> t)
            in exn_bind (py_getitem details (PStr ''operationId'')) (\<lambda>opid.
                 if \<not> hashable opid then Inl TypeError
                 else Inr (AList.update key
                             (desc, AList.update meth (AList.update opid entry ops) methods) idx)))))"

definition index_method :: "pyval \<Rightarrow> pyval \<times> pyval \<Rightarrow> tag_index \<Rightarrow> py_exn + tag_index" where
  "index_method path md idx =
     exn_bind (py_getitem (snd md) (PStr ''tags'')) (\<lambda>tags.
     exn_bind (py_iter tags) (\<lambda>ts.
       for_each (add_operation path (fst md) (snd md)) ts idx))"

definition index_path :: "pyval \<times> pyval \<Rightarrow> tag_index \<Rightarrow> py_exn + tag_index" where
  "index_path pm idx =
     exn_bind (py_items (snd pm)) (\<lambda>methods. for_each (index_method (fst pm)) methods idx)"

definition sorted_docs_of :: "pyval \<Rightarrow> py_exn + pyval" where
  "sorted_docs_of doc =
     exn_bind (py_get doc ''openapi'' (PStr [])) (\<lambda>openapi.
     exn_bind (py_get doc ''info'' (PDict [])) (\<lambda>info.
     exn_bind (py_get doc ''security'' (PList [])) (\<lambda>security.
     exn_bind (py_get doc ''tags'' (PList [])) (\<lambda>tags.
     exn_bind (py_getitem doc (PStr ''tags'')) (\<lambda>declared.
     exn_bind (py_iter declared) (\<lambda>tag_list.
     exn_bind (for_each tag_entry tag_list []) (\<lambda>idx0.
     exn_bind (py_get doc ''components'' (PDict [])) (\<lambda>components.
     exn_bind (py_getitem doc (PStr ''paths'')) (\<lambda>paths.
     exn_bind (py_items paths) (\<lambda>path_items.
     exn_bind (for_each index_path path_items idx0) (\<lambda>idx.
       Inr (PDict [(PStr ''openapi_version'', openapi), (PStr ''info'', info),
                   (PStr ''security'', security), (PStr ''tags'', tags),
                   (PStr ''paths'', index_json idx),
                   (PStr ''components'', components)]))))))))))))"

definition get_sorted_docs :: "ninja_api \<Rightarrow> py_exn + pyval" where
  "get_sorted_docs self = sorted_docs_of (documentation self)"

subsection \<open>Documentation snapshots\<close>

text \<open>
  A snapshot as the claims about the index take it: a list of declared tags, each with a
  name and a description, and for every path and method an operation with its tags, its
  operation identifier and its other members. \<open>doc_json\<close> is the JSON document of a
  snapshot, the value \<^verbatim>\<open>self.documentation\<close> holds.
\<close>

record tag_decl =
  tag_name :: string
  tag_description :: pyval

record operation =
  op_tags :: "string list"
  op_id :: string
  op_members :: "(string \<times> pyval) list"

record api_doc =
  doc_tags :: "tag_decl list"
  doc_paths :: "(string \<times> (string \<times> operation) list) list"
  doc_members :: "(string \<times> pyval) list"

definition members_json :: "(string \<times> pyval) list \<Rightarrow> (pyval \<times> pyval) list" where
  "members_json kvs = map (\<lambda>(k, v). (PStr k, v)) kvs"

definition tag_json :: "tag_decl \<Rightarrow> pyval" where
  "tag_json t = PDict [(PStr ''name'', PStr (tag_name t)), (PStr ''description'', tag_description t)]"

definition op_json :: "operation \<Rightarrow> pyval" where
  "op_json op =
     PDict ([(PStr ''tags'', PList (map PStr (op_tags op))), (PStr ''operationId'', PStr (op_id op))]
            @ members_json (op_members op))"

definition path_json :: "string \<times> (string \<times> operation) list \<Rightarrow> pyval \<times> pyval" where
  "path_json pm = (PStr (fst pm), PDict (map (\<lambda>(m, op). (PStr m, op_json op)) (snd pm)))"

definition doc_json :: "api_doc \<Rightarrow> pyval" where
  "doc_json d =
     PDict ([(PStr ''tags'', PList (map tag_json (doc_tags d))),
             (PStr ''paths'', PDict (map path_json (doc_paths d)))]
            @ members_json (doc_members d))"








subsection \<open>The index of a snapshot\<close>













subsection \<open>What a call adds to the network log\<close>

definition new_events :: "world \<Rightarrow> world \<Rightarrow> net_event list" where
  "new_events w w' = drop (length (sent w)) (sent w')"

fun uses_credential :: "oauth_response \<Rightarrow> net_event \<Rightarrow> bool" where
  "uses_credential cred (ApiCall m u h t k) = (h = auth_headers cred)"
| "uses_credential cred (TokenPost u d) = False"

subsection \<open>Example environments and an example world\<close>

definition env_of :: "(string \<times> string) list \<Rightarrow> environ" where
  "env_of kvs = map_of kvs"

definition mars_env :: environ where
  "mars_env = env_of [(''NINJA_ENVIRONMENT'', ''mars''), (''NINJA_CLIENT_ID'', ''id''),
      (''NINJA_CLIENT_SECRET'', ''secret''), (''NINJA_BASE_URL'', ''https://app.ninjarmm.com''),
      (''NINJA_DOCS_PATH'', ''/apidocs'')]"

definition empty_secret_env :: environ where
  "empty_secret_env = env_of [(''NINJA_ENVIRONMENT'', ''mars''), (''NINJA_CLIENT_ID'', ''id''),
      (''NINJA_CLIENT_SECRET'', []), (''NINJA_BASE_URL'', ''https://app.ninjarmm.com''),
      (''NINJA_DOCS_PATH'', ''/apidocs'')]"

definition empty_name_env :: environ where
  "empty_name_env = env_of [(''NINJA_ENVIRONMENT'', []), (''NINJA_CLIENT_ID'', ''id''),
      (''NINJA_CLIENT_SECRET'', ''secret''), (''NINJA_BASE_URL'', ''https://app.ninjarmm.com''),
      (''NINJA_DOCS_PATH'', ''/apidocs'')]"

text \<open>
  A stand-in for \<^verbatim>\<open>urljoin\<close> in the examples: for a base without a path and an absolute
  path, \<^verbatim>\<open>urljoin\<close> appends the path to the base.
\<close>

definition concat_url :: "string \<Rightarrow> string \<Rightarrow> string" where
  "concat_url base path = base @ path"

definition old_credential :: oauth_response where
  "old_credential = \<lparr>access_token = ''tok1'', token_type = ''Bearer'', expires_in = 3600,
                      scope = ''monitoring'', obtained_at = whole 1000\<rparr>"

text \<open>
  A credential obtained at 1700000000 seconds, good for an hour, and one obtained at
  \<^verbatim>\<open>2**53\<close> seconds, good for three seconds: the doubles next to \<^verbatim>\<open>2**53\<close> are two
  seconds apart.
\<close>

definition recent_credential :: oauth_response where
  "recent_credential = \<lparr>access_token = ''tok1'', token_type = ''Bearer'', expires_in = 3600,
                         scope = ''monitoring'', obtained_at = whole 1700000000\<rparr>"

definition far_credential :: oauth_response where
  "far_credential = \<lparr>access_token = ''tok1'', token_type = ''Bearer'', expires_in = 3,
                      scope = ''monitoring'', obtained_at = whole (2 ^ 53)\<rparr>"

definition granted :: token_body where
  "granted = \<lparr>tb_access_token = Some ''tok2'', tb_token_type = Some ''Bearer'',
               tb_expires_in = Some 3600, tb_scope = Some ''monitoring''\<rparr>"

text \<open>
  A world in which the clock reads 5000, then 5001 and so on, both servers answer 200,
  nothing has been sent yet, and one credential object exists, at address 0.
\<close>

definition example_world :: world where
  "example_world =
     \<lparr>clock = (\<lambda>n. whole (5000 + int n)), ticks = 0,
      token_server = (\<lambda>evs. Response 200 (Some granted)),
      api_server = (\<lambda>evs. Response 200 (Some (PList []))),
      sent = [], heap = (\<lambda>a. old_credential), next_addr = 1\<rparr>"

definition example_client :: ninja_api where
  "example_client =
     \<lparr>environment = ''app'', client_id = ''id'', client_secret = ''secret'',
      base_url = ''https://app.ninjarmm.com'', docs_path = ''/apidocs'',
      token_url = ''https://app.ninjarmm.com/ws/oauth/token'', oauth = 0,
      documentation = PDict []\<rparr>"

subsection \<open>Example snapshots\<close>






definition undeclared_doc :: api_doc where
  "undeclared_doc =
     \<lparr>doc_tags = [\<lparr>tag_name = ''System'', tag_description = PStr ''Core''\<rparr>],
      doc_paths = [(''/orgs'', [(''get'', \<lparr>op_tags = [''Backup''], op_id = ''getOrgs'', op_members = []\<rparr>)])],
      doc_members = []\<rparr>"

definition with_doc :: "api_doc \<Rightarrow> ninja_api" where
  "with_doc d = example_client\<lparr>documentation := doc_json d\<rparr>"





section \<open>Validation: basic facts\<close>

lemma check_keys_dict:
  "check_keys ks (PDict kvs) = Inr (\<forall>(k, t) \<in> set ks. has_field kvs k t)"
proof (induction ks)
  case Nil
  show ?case by simp
next
  case (Cons p ks)
  obtain k t where p: "p = (k, t)" by (cases p)
  show ?case
  proof (cases "map_of kvs (PStr k)")
    case None
    hence "PStr k \<notin> fst ` set kvs" by (simp add: map_of_eq_None_iff)
    with None show ?thesis by (simp add: p exn_bind_def has_field_def)
  next
    case (Some v)
    hence "PStr k \<in> fst ` set kvs" by (metis map_of_eq_None_iff option.distinct(1))
    with Some Cons.IH show ?thesis by (simp add: p exn_bind_def has_field_def)
  qed
qed

lemma py_get_sub_dict:
  "has_field kvs k Tdict \<Longrightarrow> py_get (PDict kvs) k (PDict []) = Inr (PDict (sub_dict kvs k))"
  by (cases "map_of kvs (PStr k)"; cases "the (map_of kvs (PStr k))")
     (auto simp: has_field_def sub_dict_def)

lemma config_isvalid_dict: "config_isvalid (PDict kvs) = Inr (schema_ok (PDict kvs))"
proof -
  define S where "S = sub_dict kvs ''settings''"
  define U where "U = sub_dict S ''ui''"
  define P where "P = sub_dict kvs ''paths''"
  define top where "top \<longleftrightarrow> has_field kvs ''appName'' Tstr \<and> has_field kvs ''version'' Tstr \<and>
    has_field kvs ''settings'' Tdict \<and> has_field kvs ''paths'' Tdict"
  define mid where "mid \<longleftrightarrow> has_field S ''ui'' Tdict \<and> has_field S ''logLevel'' Tstr"
  define low where "low \<longleftrightarrow> has_field U ''gui'' Tbool \<and> has_field U ''theme'' Tstr"
  define pth where "pth \<longleftrightarrow> has_field P ''cacheDirectory'' Tstr \<and> has_field P ''logFile'' Tstr"
  have c1: "check_keys required_keys (PDict kvs) = Inr top"
    by (simp add: check_keys_dict required_keys_def top_def)
  have c2: "check_keys settings_keys (PDict S) = Inr mid"
    by (simp add: check_keys_dict settings_keys_def mid_def)
  have c3: "check_keys ui_keys (PDict U) = Inr low"
    by (simp add: check_keys_dict ui_keys_def low_def)
  have c4: "check_keys paths_keys (PDict P) = Inr pth"
    by (simp add: check_keys_dict paths_keys_def pth_def)
  have ok: "schema_ok (PDict kvs) \<longleftrightarrow> top \<and> mid \<and> low \<and> pth"
    by (auto simp: schema_ok_def top_def mid_def low_def pth_def S_def U_def P_def)
  have g1: "py_get (PDict kvs) ''settings'' (PDict []) = Inr (PDict S)" if top
    using that by (simp add: top_def S_def py_get_sub_dict del: py_get.simps)
  have g2: "py_get (PDict S) ''ui'' (PDict []) = Inr (PDict U)" if mid
    using that by (simp add: mid_def U_def py_get_sub_dict del: py_get.simps)
  have g3: "py_get (PDict kvs) ''paths'' (PDict []) = Inr (PDict P)" if top
    using that by (simp add: top_def P_def py_get_sub_dict del: py_get.simps)
  show ?thesis
  proof (cases top)
    case False
    then show ?thesis by (simp add: config_isvalid_def c1 ok exn_bind_def)
  next
    case top: True
    show ?thesis
    proof (cases mid)
      case False
      then show ?thesis by (simp add: config_isvalid_def c1 c2 g1 top ok exn_bind_def del: py_get.simps)
    next
      case mid: True
      show ?thesis
        by (simp add: config_isvalid_def c1 c2 c3 c4 g1 g2 g3 top mid ok exn_bind_def del: py_get.simps)
    qed
  qed
qed

lemma has_field_put:
  "has_field (put k v kvs) k' t = (if k' = k then isinstance v t else has_field kvs k' t)"
  by (simp add: has_field_def put_def update_conv')

lemma sub_dict_put:
  "sub_dict (put k v kvs) k' =
     (if k' = k then (case v of PDict sub \<Rightarrow> sub | _ \<Rightarrow> []) else sub_dict kvs k')"
  by (simp add: sub_dict_def put_def update_conv')

lemma map_of_put: "map_of (put k v kvs) (PStr k) = Some v"
  by (simp add: put_def update_conv')

lemma schema_ok_with_extra:
  assumes "schema_ok (PDict kvs)" and "k \<notin> set (level_keys lv)"
  shows "schema_ok (PDict (with_extra lv k v kvs))"
  using assms
  by (cases lv)
     (auto simp: schema_ok_def has_field_put sub_dict_put required_keys_def settings_keys_def
        ui_keys_def paths_keys_def)

lemma extra_of_with_extra:
  assumes "schema_ok (PDict kvs)"
  shows "extra_of lv k (with_extra lv k v kvs) = Some v"
  using assms
  by (cases lv) (auto simp: schema_ok_def sub_dict_put map_of_put)

section \<open>ConfigHandler: reading and writing\<close>

lemma save_config_valid:
  assumes "config_isvalid d = Inr True"
  shows "save_config dump d fs =
           (save_outcome (snd (dump d)), fs\<lparr>config_json := Some (fst (dump d))\<rparr>)"
  using assms
  by (cases "dump d") (simp add: save_config_def open_w_def fwrite_def)

lemma save_config_invalid_dict:
  assumes "config_isvalid (PDict kvs) \<noteq> Inr True"
  shows "save_config dump (PDict kvs) fs =
           (Inl (ValueError ''Cannot save invalid configuration data.''), fs)"
  using assms by (simp add: save_config_def config_isvalid_dict)

lemma get_config_valid:
  assumes "config_json fs = Some content" and "load content = Some d"
    and "config_isvalid d = Inr True"
  shows "get_config load fs = Inr d"
  using assms by (simp add: get_config_def exn_bind_def)

text \<open>
  \<open>get_config\<close> returns a document exactly when the file exists, the library parses it
  and validation answers \<^verbatim>\<open>True\<close>; the document returned is the parsed one.
\<close>

lemma get_config_returns_iff:
  "get_config load fs = Inr d \<longleftrightarrow>
     (\<exists>text. config_json fs = Some text \<and> load text = Some d \<and> config_isvalid d = Inr True)"
  by (auto simp: get_config_def exn_bind_def split: option.splits sum.splits if_splits)

lemma get_config_dict:
  assumes "config_json fs = Some text" and "load text = Some (PDict kvs)"
  shows "get_config load fs =
           (if schema_ok (PDict kvs) then Inr (PDict kvs)
            else Inl (ValueError ''Configuration data is invalid.''))"
  using assms by (simp add: get_config_def exn_bind_def config_isvalid_dict)

lemma example_config_valid: "config_isvalid (PDict example_config) = Inr True"
  by (simp add: config_isvalid_dict schema_ok_def example_config_def has_field_def sub_dict_def)

lemma bytes_config_valid: "config_isvalid (PDict bytes_config) = Inr True"
  by (simp add: config_isvalid_dict schema_ok_def bytes_config_def example_config_def
        has_field_def sub_dict_def)

lemma tuple_config_valid: "config_isvalid (PDict tuple_config) = Inr True"
  by (simp add: config_isvalid_dict schema_ok_def tuple_config_def example_config_def
        has_field_def sub_dict_def)

lemma bytes_config_dump:
  "json_dump (PDict bytes_config) = (CHR ''{'' # CHR 0x0A # ''    \"extra\": '', Some TypeError)"
  by code_simp

lemma example_config_dump: "snd (json_dump (PDict example_config)) = None"
  by code_simp

lemma example_config_load:
  "json_load (fst (json_dump (PDict example_config))) = Some (PDict example_config)"
  by code_simp

lemma extended_config_dump: "snd (json_dump (PDict extended_config)) = None"
  by code_simp

lemma extended_config_load:
  "json_load (fst (json_dump (PDict extended_config))) = Some (PDict extended_config)"
  by code_simp

lemma tuple_config_dump: "snd (json_dump (PDict tuple_config)) = None"
  by code_simp

lemma tuple_config_load:
  "json_load (fst (json_dump (PDict tuple_config))) =
     Some (PDict (example_config @ [(PStr ''recent'', PList [])]))"
  by code_simp

text \<open>
  C1, as amended. A dict that fails validation is refused with the \<^verbatim>\<open>ValueError\<close>
  "Cannot save invalid configuration data." and the file is neither opened nor written.
  A document that passes validation and that the library cannot serialise (it raises
  \<^verbatim>\<open>TypeError\<close>) makes \<open>save_config\<close> fail with the \<^verbatim>\<open>ValueError\<close> "Error saving JSON";
  by then the file has been opened for writing, and it holds what the library wrote
  before it raised, not its previous content.
\<close>

theorem save_config_failures:
  "(config_isvalid (PDict kvs) \<noteq> Inr True \<longrightarrow>
      save_config dump (PDict kvs) fs =
        (Inl (ValueError ''Cannot save invalid configuration data.''), fs)) \<and>
   (config_isvalid d = Inr True \<and> dump d = (written, Some TypeError) \<longrightarrow>
      save_config dump d fs =
        (Inl (ValueError ''Error saving JSON''), fs\<lparr>config_json := Some written\<rparr>))"
  using save_config_invalid_dict [of kvs dump fs] save_config_valid [of d dump fs]
  by (auto simp: save_outcome_def)

theorem save_config_failures_witness:
  "config_isvalid (PDict []) \<noteq> Inr True \<and>
   save_config json_dump (PDict []) old_file =
     (Inl (ValueError ''Cannot save invalid configuration data.''), old_file) \<and>
   config_isvalid (PDict bytes_config) = Inr True \<and>
   json_dump (PDict bytes_config) = (CHR ''{'' # CHR 0x0A # ''    \"extra\": '', Some TypeError) \<and>
   save_config json_dump (PDict bytes_config) old_file =
     (Inl (ValueError ''Error saving JSON''),
      old_file\<lparr>config_json := Some (CHR ''{'' # CHR 0x0A # ''    \"extra\": '')\<rparr>)"
proof -
  have h1: "config_isvalid (PDict []) \<noteq> Inr True"
    by (simp add: config_isvalid_dict schema_ok_def has_field_def)
  show ?thesis
    using h1 bytes_config_valid bytes_config_dump
      save_config_failures [of "[]" json_dump old_file "PDict bytes_config"
        "CHR ''{'' # CHR 0x0A # ''    \"extra\": ''"]
    by simp
qed

text \<open>
  C1 as stated fails: the document \<open>bytes_config\<close> passes validation, the library raises
  \<^verbatim>\<open>TypeError\<close> on its bytes value, \<open>save_config\<close> fails with "Error saving JSON", and the
  file, which held \<^verbatim>\<open>{}\<close>, now holds the beginning of the new text.
\<close>

theorem save_config_truncates_counterexample:
  "config_isvalid (PDict bytes_config) = Inr True \<and>
   snd (json_dump (PDict bytes_config)) = Some TypeError \<and>
   fst (save_config json_dump (PDict bytes_config) old_file) = Inl (ValueError ''Error saving JSON'') \<and>
   config_json old_file = Some ''{}'' \<and>
   config_json (snd (save_config json_dump (PDict bytes_config) old_file)) =
     Some (CHR ''{'' # CHR 0x0A # ''    \"extra\": '') \<and>
   snd (save_config json_dump (PDict bytes_config) old_file) \<noteq> old_file"
  by (simp add: bytes_config_valid save_config_valid [OF bytes_config_valid] bytes_config_dump
        save_outcome_def old_file_def)

text \<open>
  C2, as amended. A document that passes validation, that the library serialises
  without raising, and that the library reads back from that text as the same document,
  is returned by \<open>get_config\<close> after \<open>save_config\<close>, whatever the file held before.
\<close>

theorem save_then_get_roundtrip:
  assumes "config_isvalid d = Inr True" and "dump d = (written, None)"
    and "load written = Some d"
  shows "fst (save_config dump d fs) = Inr () \<and>
         get_config load (snd (save_config dump d fs)) = Inr d"
  using assms
  by (simp add: save_config_valid save_outcome_def get_config_valid [where content = written])

theorem save_then_get_roundtrip_witness:
  "config_isvalid (PDict example_config) = Inr True \<and>
   snd (json_dump (PDict example_config)) = None \<and>
   json_load (fst (json_dump (PDict example_config))) = Some (PDict example_config) \<and>
   fst (save_config json_dump (PDict example_config) old_file) = Inr () \<and>
   get_config json_load (snd (save_config json_dump (PDict example_config) old_file)) =
     Inr (PDict example_config)"
proof -
  have h2: "json_dump (PDict example_config) = (fst (json_dump (PDict example_config)), None)"
    using example_config_dump by (simp add: prod_eq_iff)
  show ?thesis
    using example_config_valid example_config_dump example_config_load h2
      save_then_get_roundtrip [where d = "PDict example_config" and dump = json_dump
        and load = json_load and written = "fst (json_dump (PDict example_config))"
        and fs = old_file]
    by simp
qed

text \<open>
  C2 as stated fails: \<open>tuple_config\<close> passes validation and is saved without an error,
  and \<open>get_config\<close> then returns a different document, with a list where the tuple was.
\<close>

theorem roundtrip_tuple_counterexample:
  "config_isvalid (PDict tuple_config) = Inr True \<and>
   fst (save_config json_dump (PDict tuple_config) old_file) = Inr () \<and>
   get_config json_load (snd (save_config json_dump (PDict tuple_config) old_file)) =
     Inr (PDict (example_config @ [(PStr ''recent'', PList [])])) \<and>
   PDict (example_config @ [(PStr ''recent'', PList [])]) \<noteq> PDict tuple_config"
proof -
  have v: "config_isvalid (PDict (example_config @ [(PStr ''recent'', PList [])])) = Inr True"
    by (simp add: config_isvalid_dict schema_ok_def example_config_def has_field_def sub_dict_def)
  have g: "get_config json_load (snd (save_config json_dump (PDict tuple_config) old_file)) =
     Inr (PDict (example_config @ [(PStr ''recent'', PList [])]))"
    by (rule get_config_valid [where load = json_load
          and content = "fst (json_dump (PDict tuple_config))"])
       (simp_all add: save_config_valid [OF tuple_config_valid] tuple_config_load v)
  have s: "fst (save_config json_dump (PDict tuple_config) old_file) = Inr ()"
    by (simp add: save_config_valid [OF tuple_config_valid] tuple_config_dump save_outcome_def)
  have n: "PDict (example_config @ [(PStr ''recent'', PList [])]) \<noteq> PDict tuple_config"
    by (simp add: tuple_config_def)
  show ?thesis
    using tuple_config_valid s g n by blast
qed

text \<open>
  C3 at a file that holds \<^verbatim>\<open>null\<close>: the text is valid JSON, no required field is
  present, and the call ends in the \<^verbatim>\<open>TypeError\<close> of \<^verbatim>\<open>"appName" not in None\<close>, which
  \<open>get_config\<close> does not catch, instead of the \<^verbatim>\<open>ValueError\<close> "Configuration data is
  invalid.".
\<close>

theorem get_config_null_document:
  "json_load ''null'' = Some PNone \<and>
   config_isvalid PNone = Inl TypeError \<and>
   get_config json_load \<lparr>config_json = Some ''null''\<rparr> = Inl TypeError"
proof -
  have l: "json_load ''null'' = Some PNone" by code_simp
  have v: "config_isvalid PNone = Inl TypeError"
    by (simp add: config_isvalid_def required_keys_def exn_bind_def)
  show ?thesis by (simp add: l v get_config_def exn_bind_def)
qed

text \<open>
  C9, as amended. A document that has every required field with its required type passes
  validation, and so does the document with an additional key \<open>k\<close> (not one of the
  required names of its level) at the top level or inside \<open>settings\<close>, \<open>ui\<close> or \<open>paths\<close>,
  whatever its value. \<open>get_config\<close> returns such a document as parsed, extra key
  included. \<open>save_config\<close> passes it whole to the library and stores what the library
  writes; when the library serialises the document without raising, \<open>save_config\<close>
  succeeds, and when the library also reads the stored text back as the document,
  \<open>get_config\<close> returns it from the file with the extra key.
\<close>

theorem validation_permits_extra_keys:
  assumes "schema_ok (PDict kvs)" and "k \<notin> set (level_keys lv)"
  shows "config_isvalid (PDict kvs) = Inr True \<and>
         config_isvalid (PDict (with_extra lv k v kvs)) = Inr True \<and>
         extra_of lv k (with_extra lv k v kvs) = Some v \<and>
         (config_json fs = Some content \<and> load content = Some (PDict (with_extra lv k v kvs)) \<longrightarrow>
            get_config load fs = Inr (PDict (with_extra lv k v kvs))) \<and>
         save_config dump (PDict (with_extra lv k v kvs)) fs' =
           (save_outcome (snd (dump (PDict (with_extra lv k v kvs)))),
            fs'\<lparr>config_json := Some (fst (dump (PDict (with_extra lv k v kvs))))\<rparr>) \<and>
         (snd (dump (PDict (with_extra lv k v kvs))) = None \<longrightarrow>
            fst (save_config dump (PDict (with_extra lv k v kvs)) fs') = Inr () \<and>
            config_json (snd (save_config dump (PDict (with_extra lv k v kvs)) fs')) =
              Some (fst (dump (PDict (with_extra lv k v kvs)))) \<and>
            (load (fst (dump (PDict (with_extra lv k v kvs)))) = Some (PDict (with_extra lv k v kvs)) \<longrightarrow>
               get_config load (snd (save_config dump (PDict (with_extra lv k v kvs)) fs')) =
                 Inr (PDict (with_extra lv k v kvs))))"
proof -
  have v: "config_isvalid (PDict (with_extra lv k v kvs)) = Inr True"
    using schema_ok_with_extra [OF assms] by (simp add: config_isvalid_dict)
  have g: "get_config load fs = Inr (PDict (with_extra lv k v kvs))"
    if "config_json fs = Some content" and "load content = Some (PDict (with_extra lv k v kvs))"
    for fs content
    using that v by (rule get_config_valid)
  have s: "save_config dump (PDict (with_extra lv k v kvs)) fs' =
           (save_outcome (snd (dump (PDict (with_extra lv k v kvs)))),
            fs'\<lparr>config_json := Some (fst (dump (PDict (with_extra lv k v kvs))))\<rparr>)"
    by (rule save_config_valid [OF v])
  have r: "get_config load (snd (save_config dump (PDict (with_extra lv k v kvs)) fs')) =
                 Inr (PDict (with_extra lv k v kvs))"
    if "load (fst (dump (PDict (with_extra lv k v kvs)))) = Some (PDict (with_extra lv k v kvs))"
    using that by (intro g [where content = "fst (dump (PDict (with_extra lv k v kvs)))"])
      (simp_all add: s)
  have c: "config_isvalid (PDict kvs) = Inr True"
    using assms(1) by (simp add: config_isvalid_dict)
  have o: "fst (save_config dump (PDict (with_extra lv k v kvs)) fs') = Inr ()"
    if "snd (dump (PDict (with_extra lv k v kvs))) = None"
    using that by (simp add: s save_outcome_def)
  have f: "config_json (snd (save_config dump (PDict (with_extra lv k v kvs)) fs')) =
              Some (fst (dump (PDict (with_extra lv k v kvs))))"
    by (simp add: s)
  show ?thesis
    using c v extra_of_with_extra [OF assms(1)] g s o f r by blast
qed

theorem validation_permits_extra_keys_witness:
  "schema_ok (PDict example_config) \<and> ''font'' \<notin> set (level_keys Ui) \<and>
   config_isvalid (PDict extended_config) = Inr True \<and>
   extra_of Ui ''font'' extended_config = Some (PInt 12) \<and>
   snd (json_dump (PDict extended_config)) = None \<and>
   json_load (fst (json_dump (PDict extended_config))) = Some (PDict extended_config) \<and>
   save_config json_dump (PDict extended_config) old_file =
     (Inr (), \<lparr>config_json = Some (fst (json_dump (PDict extended_config)))\<rparr>) \<and>
   get_config json_load (snd (save_config json_dump (PDict extended_config) old_file)) =
     Inr (PDict extended_config)"
proof -
  have h1: "schema_ok (PDict example_config)"
    using example_config_valid by (simp add: config_isvalid_dict)
  have h2: "''font'' \<notin> set (level_keys Ui)"
    by (simp add: ui_keys_def)
  note t = validation_permits_extra_keys [OF h1 h2, of "PInt 12"
      "\<lparr>config_json = Some (fst (json_dump (PDict extended_config)))\<rparr>"
      "fst (json_dump (PDict extended_config))" json_load json_dump old_file,
      folded extended_config_def]
  have a: "config_isvalid (PDict extended_config) = Inr True"
    and b: "extra_of Ui ''font'' extended_config = Some (PInt 12)"
    using t by simp_all
  have c: "save_config json_dump (PDict extended_config) old_file =
     (Inr (), \<lparr>config_json = Some (fst (json_dump (PDict extended_config)))\<rparr>)"
    using t extended_config_dump by (simp add: save_outcome_def old_file_def)
  have d: "get_config json_load (snd (save_config json_dump (PDict extended_config) old_file)) =
     Inr (PDict extended_config)"
    using t extended_config_dump extended_config_load by blast
  show ?thesis
    using h1 h2 a b c d extended_config_dump extended_config_load by blast
qed

lemma icon_config_valid: "config_isvalid (PDict icon_config) = Inr True"
proof -
  have "schema_ok (PDict example_config)"
    using example_config_valid by (simp add: config_isvalid_dict)
  moreover have "''icon'' \<notin> set (level_keys Ui)" by (simp add: ui_keys_def)
  ultimately have "schema_ok (PDict icon_config)"
    unfolding icon_config_def by (rule schema_ok_with_extra)
  then show ?thesis by (simp add: config_isvalid_dict)
qed

lemma icon_config_dump: "snd (json_dump (PDict icon_config)) = Some TypeError"
  by code_simp

lemma icon_config_cut: "json_load (fst (json_dump (PDict icon_config))) = None"
  by code_simp

text \<open>
  C9 as stated fails for \<open>save_config\<close>: \<open>icon_config\<close> has all required fields and one
  more key inside \<open>ui\<close>, whose value is bytes. It passes validation, \<open>save_config\<close>
  fails with "Error saving JSON", and the file does not hold the document: \<open>get_config\<close>
  cannot read it.
\<close>

theorem extra_bytes_counterexample:
  "config_isvalid (PDict example_config) = Inr True \<and>
   icon_config = with_extra Ui ''icon'' (PBytes ''x'') example_config \<and>
   extra_of Ui ''icon'' icon_config = Some (PBytes ''x'') \<and>
   config_isvalid (PDict icon_config) = Inr True \<and>
   fst (save_config json_dump (PDict icon_config) old_file) = Inl (ValueError ''Error saving JSON'') \<and>
   get_config json_load (snd (save_config json_dump (PDict icon_config) old_file)) =
     Inl (ValueError ''Error decoding JSON'')"
proof -
  have e: "extra_of Ui ''icon'' icon_config = Some (PBytes ''x'')" by code_simp
  have s: "fst (save_config json_dump (PDict icon_config) old_file) =
      Inl (ValueError ''Error saving JSON'')"
    by (simp add: save_config_valid [OF icon_config_valid] icon_config_dump save_outcome_def)
  have g: "get_config json_load (snd (save_config json_dump (PDict icon_config) old_file)) =
     Inl (ValueError ''Error decoding JSON'')"
    by (simp add: save_config_valid [OF icon_config_valid] get_config_def icon_config_cut)
  show ?thesis
    using example_config_valid icon_config_def e icon_config_valid s g by blast
qed

section \<open>Floats: rounding\<close>

text \<open>
  \<open>bit_length k\<close> is the number of binary digits of a positive \<open>k\<close>.
\<close>

declare bit_length.simps [simp del]

lemma bit_length_nonpos [simp]: "k \<le> 0 \<Longrightarrow> bit_length k = 0"
  by (simp add: bit_length.simps)

lemma bit_length_pos: "0 < k \<Longrightarrow> bit_length k = Suc (bit_length (k div 2))"
  by (subst bit_length.simps) simp

lemma bit_length_less: "k < 2 ^ bit_length k"
proof (induction k rule: bit_length.induct)
  case (1 k)
  show ?case
  proof (cases "k \<le> 0")
    case True then show ?thesis by simp
  next
    case False
    with 1 have "k div 2 < 2 ^ bit_length (k div 2)" by simp
    then have "k < 2 * 2 ^ bit_length (k div 2)" by linarith
    with False show ?thesis by (simp add: bit_length_pos)
  qed
qed

lemma bit_length_ge: "0 < k \<Longrightarrow> 2 ^ (bit_length k - 1) \<le> k"
proof (induction k rule: bit_length.induct)
  case (1 k)
  from 1(2) have b: "bit_length k = Suc (bit_length (k div 2))" by (rule bit_length_pos)
  show ?case
  proof (cases "k div 2 \<le> 0")
    case True
    with 1(2) show ?thesis by (simp add: b)
  next
    case False
    with 1 have i: "2 ^ (bit_length (k div 2) - 1) \<le> k div 2" by simp
    from False have "bit_length (k div 2) = Suc (bit_length (k div 2) - 1)"
      by (simp add: bit_length_pos)
    then have "(2::int) ^ bit_length (k div 2) = 2 * 2 ^ (bit_length (k div 2) - 1)"
      by (metis power_Suc)
    with i have "2 ^ bit_length (k div 2) \<le> k" by linarith
    then show ?thesis by (simp add: b)
  qed
qed

lemma bit_length_eqI:
  assumes "2 ^ n \<le> k" and "k < 2 ^ Suc n"
  shows "bit_length k = Suc n"
proof -
  have "(0::int) < 2 ^ n" by simp
  with assms(1) have k: "0 < k" by linarith
  have "(2::int) ^ n < 2 ^ bit_length k"
    using assms(1) bit_length_less [of k] by linarith
  then have a: "n < bit_length k" by simp
  have "(2::int) ^ (bit_length k - 1) < 2 ^ Suc n"
    using bit_length_ge [OF k] assms(2) by linarith
  then have "bit_length k - 1 < Suc n"
    by (simp only: power_strict_increasing_iff one_less_numeral_iff semiring_norm)
  with a show ?thesis by linarith
qed

lemma bit_length_leI: "k < 2 ^ n \<Longrightarrow> bit_length k \<le> n"
proof (cases "k \<le> 0")
  case False
  assume "k < 2 ^ n"
  with bit_length_ge [of k] False have "(2::int) ^ (bit_length k - 1) < 2 ^ n" by linarith
  then have "bit_length k - 1 < n" by simp
  then show ?thesis by linarith
qed simp

lemma bit_length_mult_pow:
  assumes "0 < k"
  shows "bit_length (k * 2 ^ n) = bit_length k + n"
proof -
  from assms have p: "bit_length k = Suc (bit_length k - 1)" by (simp add: bit_length_pos)
  have "2 ^ (bit_length k - 1) * 2 ^ n \<le> k * (2::int) ^ n"
    using bit_length_ge [OF assms] by simp
  then have a: "2 ^ (bit_length k - 1 + n) \<le> k * 2 ^ n" by (simp add: power_add)
  have "k * 2 ^ n < 2 ^ bit_length k * (2::int) ^ n"
    using bit_length_less [of k] by simp
  then have "k * 2 ^ n < 2 ^ Suc (bit_length k - 1 + n)"
    using p by (metis add_Suc power_add)
  from bit_length_eqI [OF a this] p show ?thesis by simp
qed

text \<open>
  Rounding changes nothing where nothing is cut off, and it commutes with scaling by a
  power of two, so that it can be computed on small numbers.
\<close>

lemma keep53_exact: "a mod 2 ^ (bit_length a - 53) = 0 \<Longrightarrow> keep53 a = a"
  by (auto simp: keep53_def Let_def)

lemma keep53_small: "a < 2 ^ 53 \<Longrightarrow> keep53 a = a"
proof -
  assume "a < 2 ^ 53"
  then have "bit_length a - 53 = 0" using bit_length_leI [of a 53] by simp
  then show ?thesis by (simp add: keep53_exact)
qed

lemma keep53_scale: "0 \<le> m \<Longrightarrow> keep53 (m * 2 ^ e) = keep53 m * 2 ^ e"
proof (cases "m = 0")
  case True then show ?thesis by (simp add: keep53_def)
next
  case False
  assume "0 \<le> m"
  with False have "0 < m" by simp
  then have b: "bit_length (m * 2 ^ e) = bit_length m + e" by (rule bit_length_mult_pow)
  show ?thesis
  proof (cases "53 \<le> bit_length m")
    case True
    define s where "s = bit_length m - 53"
    have s: "bit_length (m * 2 ^ e) - 53 = s + e" using True b by (simp add: s_def)
    have q: "(m * 2 ^ e) div 2 ^ (s + e) = m div 2 ^ s"
      by (simp add: power_add)
    have r: "(m * 2 ^ e) mod 2 ^ (s + e) = (m mod 2 ^ s) * 2 ^ e"
      by (simp add: power_add)
    have c1: "((2::int) ^ (s + e) < 2 * ((m mod 2 ^ s) * 2 ^ e)) = (2 ^ s < 2 * (m mod 2 ^ s))"
      by (simp add: power_add)
    have c2: "(2 * ((m mod 2 ^ s) * 2 ^ e) = (2::int) ^ (s + e)) = (2 * (m mod 2 ^ s) = 2 ^ s)"
      by (simp add: power_add)
    show ?thesis
      unfolding keep53_def Let_def s q r c1 c2 s_def [symmetric]
      by (simp add: power_add)
  next
    case False
    then have "bit_length (m * 2 ^ e) - 53 \<le> e" using b by simp
    then have "(2::int) ^ (bit_length (m * 2 ^ e) - 53) dvd 2 ^ e" by (simp add: le_imp_power_dvd)
    then have "(m * 2 ^ e) mod 2 ^ (bit_length (m * 2 ^ e) - 53) = 0" by (simp add: dvd_mult mod_eq_0_iff_dvd)
    then have "keep53 (m * 2 ^ e) = m * 2 ^ e" by (rule keep53_exact)
    moreover from False have "keep53 m = m" by (simp add: keep53_exact)
    ultimately show ?thesis by simp
  qed
qed

lemma round53_scale: "round53 (i * 2 ^ e) = round53 i * 2 ^ e"
proof (cases "i < 0")
  case True
  then have n: "i * 2 ^ e < 0" by (simp add: mult_less_0_iff)
  have "keep53 (- i * 2 ^ e) = keep53 (- i) * 2 ^ e" using True by (intro keep53_scale) simp
  with True n show ?thesis by (simp add: round53_def)
next
  case False
  then have n: "\<not> i * 2 ^ e < 0" by (simp add: mult_less_0_iff)
  have "keep53 (i * 2 ^ e) = keep53 i * 2 ^ e" using False by (intro keep53_scale) simp
  with False n show ?thesis by (simp add: round53_def)
qed

lemma round53_exact:
  assumes "\<bar>k\<bar> mod 2 ^ (bit_length \<bar>k\<bar> - 53) = 0"
  shows "round53 k = k"
proof -
  have "keep53 \<bar>k\<bar> = \<bar>k\<bar>" using assms by (rule keep53_exact)
  then show ?thesis by (cases "k < 0") (simp_all add: round53_def abs_if)
qed

lemma to_double_exact: "representable k \<Longrightarrow> to_double k = Finite k"
  by (auto simp: representable_def to_double_def round53_exact Let_def)

lemma float_of_int_exact:
  "representable (i * float_unit) \<Longrightarrow> float_of_int i = Inr (Finite (i * float_unit))"
  by (simp add: float_of_int_def to_double_exact)

lemma float_unit_pos: "0 < float_unit"
  by (simp add: float_unit_def)

lemma seconds_less: "(seconds a < seconds b) = (a < b)"
  using float_unit_pos by (simp add: seconds_def divide_less_cancel)

lemma seconds_add: "seconds (a + i * float_unit) = seconds a + real_of_int i"
  using float_unit_pos by (simp add: seconds_def add_divide_distrib)

text \<open>
  The step counts of the finite doubles are the numbers below \<open>float_limit\<close> in
  magnitude that have at most 53 significant bits.
\<close>

lemma fits53_iff: "fits53 d \<longleftrightarrow> \<bar>d\<bar> mod 2 ^ (bit_length \<bar>d\<bar> - 53) = 0"
proof -
  define a where "a = \<bar>d\<bar>"
  define s where "s = bit_length a - 53"
  have a0: "0 \<le> a" by (simp add: a_def)
  have "(a mod 2 ^ s = 0) \<longleftrightarrow> (\<exists>m e. a = m * 2 ^ e \<and> m < 2 ^ 53)"
  proof
    assume z: "a mod 2 ^ s = 0"
    then have e: "a = (a div 2 ^ s) * 2 ^ s" by (simp add: mod_eq_0_iff_dvd)
    have "a < 2 ^ 53 * 2 ^ s"
    proof (cases "bit_length a \<le> 53")
      case True
      have "a < 2 ^ bit_length a" by (rule bit_length_less)
      also have "\<dots> \<le> 2 ^ 53" using True by (intro power_increasing) simp_all
      finally show ?thesis using True by (simp add: s_def)
    next
      case False
      then have "bit_length a = 53 + s" by (simp add: s_def)
      with bit_length_less [of a] show ?thesis by (simp add: power_add)
    qed
    with e have "(a div 2 ^ s) * 2 ^ s < 2 ^ 53 * 2 ^ s" by simp
    then have "a div 2 ^ s < 2 ^ 53" by (simp only: mult_less_cancel_right_pos zero_less_power zero_less_numeral)
    with e show "\<exists>m e. a = m * 2 ^ e \<and> m < 2 ^ 53" by blast
  next
    assume "\<exists>m e. a = m * 2 ^ e \<and> m < 2 ^ 53"
    then obtain m e where a: "a = m * 2 ^ e" and m: "m < 2 ^ 53" by blast
    show "a mod 2 ^ s = 0"
    proof (cases "m \<le> 0")
      case True
      with a0 a have "m = 0" by (simp add: zero_le_mult_iff)
      with a show ?thesis by simp
    next
      case False
      then have "bit_length a = bit_length m + e" by (simp add: a bit_length_mult_pow)
      moreover have "bit_length m \<le> 53" using m by (rule bit_length_leI)
      ultimately have "s \<le> e" by (simp add: s_def)
      then have "(2::int) ^ s dvd 2 ^ e" by (simp add: le_imp_power_dvd)
      then show ?thesis by (simp add: a dvd_mult mod_eq_0_iff_dvd)
    qed
  qed
  then show ?thesis by (simp add: fits53_def a_def s_def)
qed

lemma representable_iff: "representable k \<longleftrightarrow> \<bar>k\<bar> < float_limit \<and> fits53 k"
  by (simp add: representable_def fits53_iff)

lemma round53_small: "\<bar>i\<bar> < 2 ^ 53 \<Longrightarrow> round53 i = i"
proof -
  assume "\<bar>i\<bar> < 2 ^ 53"
  then have "keep53 \<bar>i\<bar> = \<bar>i\<bar>" by (rule keep53_small)
  then show ?thesis by (cases "i < 0") (simp_all add: round53_def abs_if)
qed

lemma to_double_whole:
  "to_double (i * float_unit) =
     (if 2 ^ 1024 \<le> round53 i then PosInf
      else if round53 i \<le> - (2 ^ 1024) then NegInf
      else Finite (round53 i * float_unit))"
proof -
  have r: "round53 (i * float_unit) = round53 i * float_unit"
    unfolding float_unit_def by (rule round53_scale)
  have a: "(float_limit \<le> round53 i * float_unit) = (2 ^ 1024 \<le> round53 i)"
    using float_unit_pos unfolding float_limit_def by (rule mult_le_cancel_right_pos)
  have "(round53 i * float_unit \<le> - (2 ^ 1024) * float_unit) = (round53 i \<le> - (2 ^ 1024))"
    using float_unit_pos by (rule mult_le_cancel_right_pos)
  then have b: "(round53 i * float_unit \<le> - float_limit) = (round53 i \<le> - (2 ^ 1024))"
    by (simp add: float_limit_def)
  show ?thesis
    unfolding to_double_def Let_def r a b by simp
qed

lemma to_double_small: "\<bar>i\<bar> < 2 ^ 53 \<Longrightarrow> to_double (i * float_unit) = whole i"
proof -
  assume a: "\<bar>i\<bar> < 2 ^ 53"
  have "(2::int) ^ 53 < 2 ^ 1024" by (rule power_strict_increasing) simp_all
  with a have "\<bar>i\<bar> < 2 ^ 1024" by linarith
  then have "\<not> 2 ^ 1024 \<le> i" "\<not> i \<le> - (2 ^ 1024)" by linarith+
  then show ?thesis
    unfolding to_double_whole round53_small [OF a] whole_def by simp
qed

lemma float_of_int_small: "\<bar>i\<bar> < 2 ^ 53 \<Longrightarrow> float_of_int i = Inr (whole i)"
  by (simp add: float_of_int_def to_double_small whole_def)

lemma float_add_whole: "float_add (whole a) (whole b) = to_double ((a + b) * float_unit)"
  by (simp add: whole_def distrib_right)

lemma float_gt_units:
  "float_gt (Finite (a * float_unit)) (Finite (b * float_unit)) = (b < a)"
  using float_unit_pos by simp

lemma float_gt_whole: "float_gt (whole a) (whole b) = (b < a)"
  by (simp add: whole_def float_gt_units del: float_gt.simps)

lemma is_expired_whole:
  assumes "obtained_at c = whole a" and "\<bar>expires_in c\<bar> < 2 ^ 53"
    and "\<bar>a + expires_in c\<bar> < 2 ^ 53"
  shows "is_expired (whole t) c = Inr (a + expires_in c < t)"
  using assms
  by (simp add: is_expired_def float_of_int_small exn_bind_def float_add_whole
        to_double_small float_gt_whole)

lemma representable_whole: "\<bar>i\<bar> < 2 ^ 53 \<Longrightarrow> representable (i * float_unit)"
proof -
  assume a: "\<bar>i\<bar> < 2 ^ 53"
  have "\<bar>i * float_unit\<bar> = \<bar>i\<bar> * 2 ^ 1074"
    by (simp add: float_unit_def abs_mult)
  with a have "fits53 (i * float_unit)" unfolding fits53_def by blast
  moreover have "\<bar>i * float_unit\<bar> < float_limit"
  proof -
    have "(2::int) ^ 53 < 2 ^ 1024" by (rule power_strict_increasing) simp_all
    with a have "\<bar>i\<bar> < 2 ^ 1024" by linarith
    then have "\<bar>i\<bar> * float_unit < 2 ^ 1024 * float_unit"
      using float_unit_pos by (simp only: mult_less_cancel_right_pos)
    then show ?thesis using float_unit_pos by (simp add: abs_mult float_limit_def)
  qed
  ultimately show ?thesis unfolding representable_iff by blast
qed

text \<open>
  \<open>keep53\<close> is rounding to nearest: its result has at most 53 significant bits, no such
  number is nearer to the argument, and of two nearest ones it is the even one.
\<close>

lemma fits53_minus [simp]: "fits53 (- d) = fits53 d"
  by (simp add: fits53_def)

lemma fits53_0: "fits53 0"
  unfolding fits53_def by (intro exI [of _ 0]) simp

lemma keep53_cases:
  fixes a :: int
  defines "s \<equiv> bit_length a - 53"
  defines "q \<equiv> a div 2 ^ s"
  defines "r \<equiv> a mod 2 ^ s"
  shows "keep53 a = (if 2 ^ s < 2 * r \<or> (2 * r = 2 ^ s \<and> odd q) then (q + 1) * 2 ^ s else q * 2 ^ s)"
  by (simp add: keep53_def Let_def s_def q_def r_def)

lemma leading_bits:
  assumes b: "53 < bit_length a"
  shows "2 ^ 52 \<le> a div 2 ^ (bit_length a - 53)" and "a div 2 ^ (bit_length a - 53) < 2 ^ 53"
proof -
  define s where "s = bit_length a - 53"
  define q where "q = a div 2 ^ s"
  define r where "r = a mod 2 ^ s"
  have a: "a = q * 2 ^ s + r" by (simp only: q_def r_def div_mult_mod_eq)
  have r: "0 \<le> r" "r < 2 ^ s" by (simp_all add: r_def)
  from b have bl: "bit_length a = Suc (52 + s)" by (simp add: s_def)
  from b have a0: "0 < a" by (cases "a \<le> 0") simp_all
  have "2 ^ (52 + s) \<le> a" using bit_length_ge [OF a0] bl by simp
  then have "2 ^ 52 * 2 ^ s \<le> a" by (simp add: power_add)
  moreover have "(q + 1) * 2 ^ s = q * 2 ^ s + 2 ^ s" by (simp add: algebra_simps)
  ultimately have "2 ^ 52 * 2 ^ s < (q + 1) * 2 ^ s" using a r by linarith
  then have "2 ^ 52 < q + 1" by (simp only: mult_less_cancel_right_pos zero_less_power zero_less_numeral)
  then show "2 ^ 52 \<le> a div 2 ^ (bit_length a - 53)" by (simp add: q_def s_def)
  have "a < 2 ^ 53 * 2 ^ s" using bit_length_less [of a] bl by (simp add: power_add)
  with a r have "q * 2 ^ s < 2 ^ 53 * 2 ^ s" by linarith
  then have "q < 2 ^ 53" by (simp only: mult_less_cancel_right_pos zero_less_power zero_less_numeral)
  then show "a div 2 ^ (bit_length a - 53) < 2 ^ 53" by (simp add: q_def s_def)
qed

lemma no_double_between:
  assumes f: "fits53 d" and b: "53 < bit_length a"
  shows "d \<le> (a div 2 ^ (bit_length a - 53)) * 2 ^ (bit_length a - 53) \<or>
         (a div 2 ^ (bit_length a - 53) + 1) * 2 ^ (bit_length a - 53) \<le> d"
proof (rule ccontr)
  define s where "s = bit_length a - 53"
  define q where "q = a div 2 ^ s"
  assume "\<not> ?thesis"
  then have lo: "q * 2 ^ s < d" and hi: "d < (q + 1) * 2 ^ s"
    by (simp_all add: s_def q_def)
  from leading_bits [OF b] have q1: "2 ^ 52 \<le> q" and q2: "q < 2 ^ 53"
    by (simp_all add: q_def s_def)
  have "2 ^ 52 * 2 ^ s \<le> q * (2::int) ^ s"
    using q1 by (simp only: mult_le_cancel_right_pos zero_less_power zero_less_numeral)
  with lo have "2 ^ 52 * 2 ^ s \<le> d" by linarith
  then have d1: "2 ^ (52 + s) \<le> d" by (simp only: power_add)
  have "(0::int) < 2 ^ (52 + s)" by simp
  with d1 have d0: "0 < d" by linarith
  from q2 have "q + 1 \<le> 2 ^ 53" by simp
  then have "(q + 1) * 2 ^ s \<le> 2 ^ 53 * (2::int) ^ s"
    by (simp only: mult_le_cancel_right_pos zero_less_power zero_less_numeral)
  with hi have "d < 2 ^ 53 * 2 ^ s" by linarith
  then have d2: "d < 2 ^ Suc (52 + s)" by (simp add: power_add)
  from bit_length_eqI [OF d1 d2] have "bit_length d - 53 = s" by simp
  with f d0 have "d mod 2 ^ s = 0" by (simp add: fits53_iff)
  then obtain j where j: "d = 2 ^ s * j" by (auto simp: mod_eq_0_iff_dvd elim: dvdE)
  from lo j have "q * 2 ^ s < j * 2 ^ s" by (simp only: mult.commute)
  then have "q < j" by (simp only: mult_less_cancel_right_pos zero_less_power zero_less_numeral)
  moreover from hi j have "j * 2 ^ s < (q + 1) * 2 ^ s" by (simp only: mult.commute)
  then have "j < q + 1" by (simp only: mult_less_cancel_right_pos zero_less_power zero_less_numeral)
  ultimately show False by simp
qed

lemma keep53_nearest:
  assumes "fits53 d"
  shows "\<bar>keep53 a - a\<bar> \<le> \<bar>d - a\<bar>"
proof -
  define s where "s = bit_length a - 53"
  define q where "q = a div 2 ^ s"
  define r where "r = a mod 2 ^ s"
  define p :: int where "p = 2 ^ s"
  have a: "a = q * p + r" by (simp only: q_def r_def p_def div_mult_mod_eq)
  have r: "0 \<le> r" "r < p" by (simp_all add: r_def p_def)
  show ?thesis
  proof (cases "r = 0")
    case True
    then have "keep53 a = a" by (simp add: keep53_exact r_def s_def)
    then show ?thesis by simp
  next
    case False
    have "s \<noteq> 0"
    proof
      assume "s = 0"
      then have "r = 0" by (simp add: r_def)
      with False show False by simp
    qed
    then have b: "53 < bit_length a" by (simp add: s_def)
    from no_double_between [OF assms b]
    have d: "d \<le> q * p \<or> q * p + p \<le> d" by (simp add: s_def q_def p_def algebra_simps)
    have k: "keep53 a = (if p < 2 * r \<or> (2 * r = p \<and> odd q) then q * p + p else q * p)"
      using keep53_cases [of a]
      by (simp add: s_def [symmetric] q_def [symmetric] r_def [symmetric] p_def algebra_simps)
    show ?thesis
    proof (cases "p < 2 * r \<or> (2 * r = p \<and> odd q)")
      case True
      with k have "keep53 a = q * p + p" by simp
      moreover from True have "p \<le> 2 * r" by auto
      ultimately show ?thesis using d r a by linarith
    next
      case False
      with k have "keep53 a = q * p" by simp
      moreover from False have "2 * r \<le> p" by auto
      ultimately show ?thesis using d r a by linarith
    qed
  qed
qed

lemma keep53_tie_even:
  assumes "2 * (a mod 2 ^ (bit_length a - 53)) = 2 ^ (bit_length a - 53)"
  shows "even (keep53 a div 2 ^ (bit_length a - 53))"
  using assms by (simp add: keep53_def Let_def)

lemma keep53_nonneg: "0 \<le> a \<Longrightarrow> 0 \<le> keep53 a"
  by (simp add: keep53_def Let_def pos_imp_zdiv_nonneg_iff)

lemma keep53_fits:
  assumes "0 \<le> a"
  shows "fits53 (keep53 a)"
proof (cases "bit_length a \<le> 53")
  case True
  have "a < 2 ^ bit_length a" by (rule bit_length_less)
  also have "\<dots> \<le> 2 ^ 53" using True by (intro power_increasing) simp_all
  finally have a: "a < 2 ^ 53" .
  then have "keep53 a = a" by (rule keep53_small)
  moreover have "fits53 a" unfolding fits53_def
    using a assms by (intro exI [of _ a] exI [of _ 0]) simp
  ultimately show ?thesis by simp
next
  case False
  define s where "s = bit_length a - 53"
  define q where "q = a div 2 ^ s"
  from False have b: "53 < bit_length a" by simp
  from leading_bits [OF b] have q1: "2 ^ 52 \<le> q" and q: "q < 2 ^ 53"
    by (simp_all add: q_def s_def)
  have q0: "0 \<le> q" using q1 by (smt (verit) zero_le_power)
  have k: "keep53 a = q * 2 ^ s \<or> keep53 a = (q + 1) * 2 ^ s"
    using keep53_cases [of a] by (simp only: s_def [symmetric] q_def [symmetric] split: if_splits) auto
  have lo: "fits53 (q * 2 ^ s)" unfolding fits53_def
    using q q0 by (intro exI [of _ q] exI [of _ s]) (simp add: abs_mult)
  have hi: "fits53 ((q + 1) * 2 ^ s)"
  proof (cases "q + 1 < 2 ^ 53")
    case True
    then show ?thesis unfolding fits53_def
      using q0 by (intro exI [of _ "q + 1"] exI [of _ s]) (simp add: abs_mult)
  next
    case False
    with q have "q + 1 = 2 ^ 53" by simp
    then have "(q + 1) * 2 ^ s = 1 * 2 ^ (53 + s)" by (simp only: power_add mult_1)
    then show ?thesis unfolding fits53_def
      by (intro exI [of _ 1] exI [of _ "53 + s"]) simp
  qed
  from k lo hi show ?thesis by auto
qed

lemma round53_fits: "fits53 (round53 k)"
  by (simp add: round53_def keep53_fits)

lemma round53_nearest:
  assumes "fits53 d"
  shows "\<bar>round53 k - k\<bar> \<le> \<bar>d - k\<bar>"
proof (cases "k < 0")
  case False
  with keep53_nearest [OF assms, of k] show ?thesis by (simp add: round53_def)
next
  case True
  from assms have "fits53 (- d)" by simp
  from keep53_nearest [OF this, of "- k"] True show ?thesis by (simp add: round53_def)
qed

lemma same_range_exact:
  assumes r: "representable a" and lo: "2 ^ j * float_unit \<le> a"
    and hi: "a + e * float_unit < 2 * 2 ^ j * float_unit" and e: "0 \<le> e" and j: "j \<le> 52"
  shows "representable (e * float_unit) \<and> representable (a + e * float_unit)"
proof
  have u: "0 < float_unit" by (rule float_unit_pos)
  have "e * float_unit < 2 ^ j * float_unit" using lo hi by linarith
  then have "e < 2 ^ j" using u by (simp only: mult_less_cancel_right_pos)
  also have "(2::int) ^ j \<le> 2 ^ 52" using j by (intro power_increasing) simp_all
  also have "(2::int) ^ 52 < 2 ^ 53" by (intro power_strict_increasing) simp_all
  finally have "\<bar>e\<bar> < 2 ^ 53" using e by simp
  then show "representable (e * float_unit)" by (rule representable_whole)
next
  have u: "0 < float_unit" by (rule float_unit_pos)
  define b where "b = a + e * float_unit"
  have a0: "0 < a" using lo u by (smt (verit) mult_pos_pos zero_less_power)
  have ab: "a \<le> b" using e u by (simp add: b_def)
  have p: "2 ^ (j + 1074) = 2 ^ j * float_unit" by (simp add: float_unit_def power_add)
  have p2: "2 ^ Suc (j + 1074) = 2 * 2 ^ j * float_unit"
    using p by (simp only: power_Suc mult.assoc)
  have na: "2 ^ (j + 1074) \<le> a" using lo p by simp
  have nb1: "2 ^ (j + 1074) \<le> b" using na ab by linarith
  have nb2: "b < 2 ^ Suc (j + 1074)" using hi unfolding p2 b_def by simp
  have na2: "a < 2 ^ Suc (j + 1074)" using nb2 ab by linarith
  have bla: "bit_length a = Suc (j + 1074)" by (rule bit_length_eqI [OF na na2])
  have blb: "bit_length b = Suc (j + 1074)" by (rule bit_length_eqI [OF nb1 nb2])
  define s where "s = Suc (j + 1074) - 53"
  from r a0 have "a mod 2 ^ s = 0" by (simp add: representable_def bla s_def)
  then have d1: "2 ^ s dvd a" by (simp add: mod_eq_0_iff_dvd)
  have "s \<le> 1074" using j by (simp add: s_def)
  then have "(2::int) ^ s dvd 2 ^ 1074" by (rule le_imp_power_dvd)
  then have d2: "2 ^ s dvd e * float_unit" unfolding float_unit_def by (rule dvd_mult)
  from d1 d2 have "2 ^ s dvd b" unfolding b_def by (rule dvd_add)
  then have m: "\<bar>b\<bar> mod 2 ^ (bit_length \<bar>b\<bar> - 53) = 0"
    using a0 ab by (simp add: blb s_def mod_eq_0_iff_dvd)
  have "2 * 2 ^ j * float_unit \<le> float_limit"
  proof -
    have "(2::int) * 2 ^ j = 2 ^ Suc j" by simp
    also have "\<dots> \<le> 2 ^ 1024" using j by (intro power_increasing) simp_all
    finally show ?thesis using u by (simp only: mult_le_cancel_right_pos float_limit_def)
  qed
  with hi have "b < float_limit" unfolding b_def by linarith
  then have "\<bar>b\<bar> < float_limit" using a0 ab by linarith
  with m show "representable (a + e * float_unit)" by (simp add: representable_def b_def)
qed

text \<open>
  Evaluation at numerals.
\<close>

lemma bit_length_numeral:
  "bit_length (numeral k) = Suc (bit_length (numeral k div 2))"
  by (rule bit_length_pos) simp

lemma bit_length_1 [simp]: "bit_length 1 = 1"
  by (simp add: bit_length_pos)

lemma round53_pow: "round53 (2 ^ e) = 2 ^ e"
  using round53_scale [of 1 e] by (simp add: round53_small)

section \<open>NinjaRMMAPI: the credential and the requests\<close>

text \<open>
  \<open>is_expired\<close> where nothing is rounded: when the credential was obtained at the finite
  double of \<open>a\<close> steps, and both \<^verbatim>\<open>expires_in\<close> and the sum are values of finite doubles,
  the answer is the comparison of the exact numbers.
\<close>

lemma is_expired_representable:
  assumes "obtained_at c = Finite a"
    and "representable (expires_in c * float_unit)"
    and "representable (a + expires_in c * float_unit)"
  shows "is_expired (Finite t) c = Inr (seconds a + real_of_int (expires_in c) < seconds t)"
proof -
  have "is_expired (Finite t) c = Inr (a + expires_in c * float_unit < t)"
    using assms by (simp add: is_expired_def float_of_int_exact exn_bind_def to_double_exact)
  then show ?thesis
    by (simp add: seconds_less [symmetric] seconds_add)
qed

text \<open>
  In general the answer is the comparison with the double nearest to the sum, when
  \<^verbatim>\<open>expires_in\<close> converts exactly and the sum stays below the largest double.
\<close>

lemma is_expired_rounded:
  assumes "obtained_at c = Finite a"
    and "representable (expires_in c * float_unit)"
    and "\<bar>round53 (a + expires_in c * float_unit)\<bar> < float_limit"
  shows "is_expired (Finite t) c = Inr (round53 (a + expires_in c * float_unit) < t)"
proof -
  from assms(3) have "\<not> float_limit \<le> round53 (a + expires_in c * float_unit)"
    and "\<not> round53 (a + expires_in c * float_unit) \<le> - float_limit"
    by linarith+
  then have "to_double (a + expires_in c * float_unit) =
      Finite (round53 (a + expires_in c * float_unit))"
    by (simp add: to_double_def Let_def)
  then show ?thesis
    using assms(1,2) by (simp add: is_expired_def float_of_int_exact exn_bind_def)
qed

lemma recent_facts:
  "obtained_at recent_credential = Finite (1700000000 * float_unit)"
  "representable (expires_in recent_credential * float_unit)"
  "representable (1700000000 * float_unit + expires_in recent_credential * float_unit)"
proof -
  show "obtained_at recent_credential = Finite (1700000000 * float_unit)"
    by (simp add: recent_credential_def whole_def)
  show "representable (expires_in recent_credential * float_unit)"
    by (simp add: recent_credential_def representable_whole)
  have "representable (1700003600 * float_unit)" by (rule representable_whole) simp
  then show "representable (1700000000 * float_unit + expires_in recent_credential * float_unit)"
    by (simp add: recent_credential_def)
qed

lemma far_not_expired: "is_expired (whole (2 ^ 53 + 4)) far_credential = Inr False"
  by (simp add: is_expired_def far_credential_def float_of_int_small exn_bind_def float_add_whole
        to_double_whole round53_def keep53_def bit_length_numeral Let_def whole_def
        float_gt_units del: float_gt.simps)

lemma far_passed: "seconds (2 ^ 53 * float_unit) + 3 < seconds ((2 ^ 53 + 4) * float_unit)"
  using float_unit_pos by (simp add: seconds_def field_simps)

lemma far_doubles:
  "representable (2 ^ 53 * float_unit)" "representable ((2 ^ 53 + 4) * float_unit)"
proof -
  have l: "(2::int) ^ 55 * float_unit < float_limit"
  proof -
    have "(2::int) ^ 55 < 2 ^ 1024" by (rule power_strict_increasing) simp_all
    then show ?thesis
      using float_unit_pos by (simp only: float_limit_def mult_less_cancel_right_pos)
  qed
  have "\<bar>2 ^ 53 * float_unit\<bar> = 1 * 2 ^ (53 + 1074)"
    by (simp add: float_unit_def power_add)
  moreover have "(1::int) < 2 ^ 53" by simp
  ultimately have "fits53 (2 ^ 53 * float_unit)" unfolding fits53_def by blast
  moreover have "\<bar>2 ^ 53 * float_unit\<bar> < float_limit"
    using l float_unit_pos by (simp add: abs_mult)
  ultimately show "representable (2 ^ 53 * float_unit)"
    unfolding representable_iff by blast
  have "\<bar>(2 ^ 53 + 4) * float_unit\<bar> = (2 ^ 51 + 1) * 2 ^ (2 + 1074)"
    by (simp add: float_unit_def power_add)
  moreover have "(2::int) ^ 51 + 1 < 2 ^ 53" by simp
  ultimately have "fits53 ((2 ^ 53 + 4) * float_unit)" unfolding fits53_def by blast
  moreover have "\<bar>(2 ^ 53 + 4) * float_unit\<bar> < float_limit"
    using l float_unit_pos by (simp add: abs_mult)
  ultimately show "representable ((2 ^ 53 + 4) * float_unit)"
    unfolding representable_iff by blast
qed

lemma far_sum_rounded: "\<not> representable (2 ^ 53 * float_unit + 3 * float_unit)"
proof
  assume r: "representable (2 ^ 53 * float_unit + 3 * float_unit)"
  have "to_double ((2 ^ 53 + 3) * float_unit) = Finite ((2 ^ 53 + 4) * float_unit)"
    by (simp add: to_double_whole round53_def keep53_def bit_length_numeral Let_def)
  moreover have "to_double ((2 ^ 53 + 3) * float_unit) = Finite ((2 ^ 53 + 3) * float_unit)"
    using to_double_exact [OF r] by (simp add: distrib_right)
  ultimately show False using float_unit_pos by simp
qed

text \<open>
  Time stamps and sums between the same two powers of two, up to \<^verbatim>\<open>2**53\<close>, are that
  case: for one, a credential obtained between \<^verbatim>\<open>2**30\<close> and \<^verbatim>\<open>2**31\<close> seconds, at any
  fraction of a second, that expires before \<^verbatim>\<open>2**31\<close> seconds.
\<close>

lemma is_expired_same_range:
  assumes "obtained_at c = Finite a" and "representable a"
    and "2 ^ j * float_unit \<le> a" and "a + expires_in c * float_unit < 2 * 2 ^ j * float_unit"
    and "0 \<le> expires_in c" and "j \<le> 52"
  shows "is_expired (Finite t) c = Inr (seconds a + real_of_int (expires_in c) < seconds t)"
proof -
  from same_range_exact [OF assms(2-6)]
  have "representable (expires_in c * float_unit)"
    and "representable (a + expires_in c * float_unit)" by simp_all
  with assms(1) show ?thesis by (rule is_expired_representable)
qed

text \<open>
  Where \<^verbatim>\<open>expires_in\<close> is not the value of a double, the conversion rounds it before the
  addition: \<^verbatim>\<open>2**53 + 1\<close> becomes \<^verbatim>\<open>2**53\<close>, and a credential obtained at \<^verbatim>\<open>-1.0\<close> with
  that lifetime is reported expired at the reading \<^verbatim>\<open>2**53\<close>, the instant of its expiry.
  An \<^verbatim>\<open>expires_in\<close> of \<^verbatim>\<open>2**1024\<close> is an integer the dataclass can hold and beyond
  every double: \<open>is_expired\<close> raises.
\<close>

lemma is_expired_early:
  "is_expired (whole (2 ^ 53))
     (far_credential\<lparr>expires_in := 2 ^ 53 + 1, obtained_at := whole (- 1)\<rparr>) = Inr True"
  by (simp add: is_expired_def float_of_int_def exn_bind_def
        to_double_whole round53_def keep53_def bit_length_numeral Let_def whole_def
        float_gt_units del: float_gt.simps)

lemma is_expired_overflow:
  "is_expired (whole 0) (far_credential\<lparr>expires_in := 2 ^ 1024\<rparr>) = Inl OverflowError"
  by (simp add: is_expired_def float_of_int_def to_double_whole round53_pow exn_bind_def
        del: power_numeral)

text \<open>
  C8, as amended. For a credential obtained at a finite double, whose \<^verbatim>\<open>expires_in\<close> and
  whose sum \<open>obtained_at + expires_in\<close> are both values of finite doubles, so that neither
  the conversion nor the addition rounds, \<open>is_expired\<close> at a clock reading is true exactly
  when the reading is strictly above \<open>obtained_at + expires_in\<close>: true at every reading
  after that instant, false at a reading one second before it.
\<close>

theorem is_expired_exact:
  assumes "obtained_at c = Finite a"
    and "representable (expires_in c * float_unit)"
    and "representable (a + expires_in c * float_unit)"
  shows "is_expired (Finite t) c =
           Inr (seconds a + real_of_int (expires_in c) < seconds t) \<and>
         (seconds a + real_of_int (expires_in c) < seconds t \<longrightarrow>
            is_expired (Finite t) c = Inr True) \<and>
         (seconds t = seconds a + real_of_int (expires_in c) - 1 \<longrightarrow>
            is_expired (Finite t) c = Inr False)"
  using is_expired_representable [OF assms, of t] by simp

theorem is_expired_exact_witness:
  "obtained_at recent_credential = Finite (1700000000 * float_unit) \<and>
   representable (expires_in recent_credential * float_unit) \<and>
   representable (1700000000 * float_unit + expires_in recent_credential * float_unit) \<and>
   seconds (1700000000 * float_unit) + real_of_int (expires_in recent_credential) = 1700003600 \<and>
   seconds (1700003601 * float_unit) = 1700003601 \<and>
   is_expired (Finite (1700003601 * float_unit)) recent_credential = Inr True \<and>
   seconds (1700003599 * float_unit) = 1700003599 \<and>
   is_expired (Finite (1700003599 * float_unit)) recent_credential = Inr False"
proof -
  have s: "seconds (i * float_unit) = real_of_int i" for i
    using float_unit_pos by (simp add: seconds_def)
  have e: "seconds (1700000000 * float_unit) + real_of_int (expires_in recent_credential) = 1700003600"
    using s [of 1700000000] by (simp add: recent_credential_def)
  have l: "seconds (1700003601 * float_unit) = 1700003601" using s [of 1700003601] by simp
  have b: "seconds (1700003599 * float_unit) = 1700003599" using s [of 1700003599] by simp
  have x: "is_expired (Finite (1700003601 * float_unit)) recent_credential = Inr True"
    using is_expired_exact [OF recent_facts, of "1700003601 * float_unit"] e l by simp
  have y: "is_expired (Finite (1700003599 * float_unit)) recent_credential = Inr False"
    using is_expired_exact [OF recent_facts, of "1700003599 * float_unit"] e b by simp
  show ?thesis using recent_facts e l b x y by blast
qed

text \<open>
  C8 as stated fails where the sum is rounded. The credential was obtained at \<^verbatim>\<open>2**53\<close>
  seconds and is good for three seconds; the sum \<^verbatim>\<open>2**53 + 3\<close> is no double and is
  rounded to \<^verbatim>\<open>2**53 + 4\<close>. At the clock reading \<^verbatim>\<open>2**53 + 4\<close>, which is strictly above
  \<open>obtained_at + expires_in\<close>, \<open>is_expired\<close> answers \<^verbatim>\<open>False\<close>.
\<close>

theorem is_expired_rounding_counterexample:
  "obtained_at far_credential = Finite (2 ^ 53 * float_unit) \<and>
   expires_in far_credential = 3 \<and>
   representable (2 ^ 53 * float_unit) \<and>
   representable ((2 ^ 53 + 4) * float_unit) \<and>
   seconds (2 ^ 53 * float_unit) + 3 < seconds ((2 ^ 53 + 4) * float_unit) \<and>
   is_expired (Finite ((2 ^ 53 + 4) * float_unit)) far_credential = Inr False"
proof -
  have a: "obtained_at far_credential = Finite (2 ^ 53 * float_unit)"
    by (simp add: far_credential_def whole_def)
  have b: "expires_in far_credential = 3" by (simp add: far_credential_def)
  have c: "is_expired (Finite ((2 ^ 53 + 4) * float_unit)) far_credential = Inr False"
    using far_not_expired by (simp add: whole_def)
  show ?thesis using a b c far_doubles far_passed by blast
qed

lemma request_credentials_cases:
  assumes "request_credentials turl cid secret w = (r, w')"
  shows "sent w' = sent w @ [TokenPost turl (credentials_payload cid secret)] \<and>
     (case r of
        Inl e \<Rightarrow> heap w' = heap w \<and> next_addr w' = next_addr w
      | Inr a \<Rightarrow> a = next_addr w \<and> next_addr w' = Suc a \<and>
                 (\<forall>b. b \<noteq> a \<longrightarrow> heap w' b = heap w b) \<and>
                 obtained_at (heap w' a) = clock w (ticks w))"
  using assms
  by (auto simp: request_credentials_def Let_def time_time_def
        split: http_result.splits sum.splits prod.splits)

lemma authenticate_cases:
  assumes "authenticate self w = (r, self', w')"
  shows "case is_expired (clock w (ticks w)) (heap w (oauth self)) of
           Inl e \<Rightarrow> r = Inl e \<and> self' = self \<and> sent w' = sent w \<and> heap w' = heap w
         | Inr expired \<Rightarrow>
             if expired
             then sent w' = sent w @ [TokenPost (token_url self)
                                        (credentials_payload (client_id self) (client_secret self))] \<and>
                  (\<forall>b. b \<noteq> next_addr w \<longrightarrow> heap w' b = heap w b) \<and>
                  (case r of Inl e \<Rightarrow> self' = self
                   | Inr u \<Rightarrow> self' = self\<lparr>oauth := next_addr w\<rparr> \<and>
                       obtained_at (heap w' (next_addr w)) = clock w (Suc (ticks w)))
             else r = Inr () \<and> self' = self \<and> sent w' = sent w \<and> heap w' = heap w"
proof (cases "is_expired (clock w (ticks w)) (heap w (oauth self))")
  case (Inl e)
  with assms show ?thesis by (auto simp: authenticate_def time_time_def)
next
  case (Inr expired)
  show ?thesis
  proof (cases expired)
    case False
    with Inr assms show ?thesis by (auto simp: authenticate_def time_time_def)
  next
    case True
    let ?w1 = "w\<lparr>ticks := Suc (ticks w)\<rparr>"
    obtain rc wc where
      rc: "request_credentials (token_url self) (client_id self) (client_secret self) ?w1 = (rc, wc)"
      by (cases "request_credentials (token_url self) (client_id self) (client_secret self) ?w1")
    from request_credentials_cases [OF rc] True Inr assms rc show ?thesis
      by (cases rc) (auto simp: authenticate_def time_time_def)
  qed
qed

text \<open>
  C7. A call of \<open>request\<close> on a client whose credential object is allocated. When the
  credential is expired at the clock reading the call takes, the requests the call adds
  to the log start with one credential request, no other credential request follows, and
  whatever follows carries the token of the new credential object; the old object is
  unchanged in the store, and the client refers either to it (the credential request
  failed) or to the new object at a fresh address. When the credential is not expired,
  the call adds no credential request, what it sends carries the token of the credential
  held, and the client and the store are unchanged. When \<open>is_expired\<close> raises, the call
  raises the same exception and sends nothing.
\<close>

theorem request_refreshes_expired_token:
  assumes "request urljoin self verb path kwargs w = (r, self', w')"
    and "oauth self < next_addr w"
  shows "sent w' = sent w @ new_events w w' \<and>
         heap w' (oauth self) = heap w (oauth self) \<and>
         (case is_expired (clock w (ticks w)) (heap w (oauth self)) of
            Inl e \<Rightarrow> r = Inl e \<and> new_events w w' = [] \<and> self' = self \<and> heap w' = heap w
          | Inr expired \<Rightarrow>
              if expired
              then (\<exists>rest. new_events w w' =
                        TokenPost (token_url self)
                          (credentials_payload (client_id self) (client_secret self)) # rest \<and>
                      filter is_token_post rest = [] \<and>
                      list_all (uses_credential (heap w' (next_addr w))) rest) \<and>
                   (self' = self \<or> (self' = self\<lparr>oauth := next_addr w\<rparr> \<and> oauth self' \<noteq> oauth self))
              else filter is_token_post (new_events w w') = [] \<and>
                   list_all (uses_credential (heap w (oauth self))) (new_events w w') \<and>
                   self' = self \<and> heap w' = heap w)"
proof -
  obtain ra sa wa where a: "authenticate self w = (ra, sa, wa)"
    by (cases "authenticate self w")
  note ac = authenticate_cases [OF a]
  show ?thesis
  proof (cases "is_expired (clock w (ticks w)) (heap w (oauth self))")
    case x: (Inl e)
    with ac have "ra = Inl e" "sa = self" "sent wa = sent w" "heap wa = heap w" by simp_all
    with a assms(1) have "r = Inl e" "self' = self" "sent w' = sent w" "heap w' = heap w"
      by (auto simp: request_def)
    with x show ?thesis by (simp add: new_events_def)
  next
    case x: (Inr expired)
    with ac have ac': "if expired
        then sent wa = sent w @ [TokenPost (token_url self)
                                   (credentials_payload (client_id self) (client_secret self))] \<and>
             (\<forall>b. b \<noteq> next_addr w \<longrightarrow> heap wa b = heap w b) \<and>
             (case ra of Inl e \<Rightarrow> sa = self
              | Inr u \<Rightarrow> sa = self\<lparr>oauth := next_addr w\<rparr> \<and>
                  obtained_at (heap wa (next_addr w)) = clock w (Suc (ticks w)))
        else ra = Inr () \<and> sa = self \<and> sent wa = sent w \<and> heap wa = heap w"
      by simp
    have "sent w' = sent w @ new_events w w' \<and>
         heap w' (oauth self) = heap w (oauth self) \<and>
         (if expired
          then (\<exists>rest. new_events w w' =
                    TokenPost (token_url self)
                      (credentials_payload (client_id self) (client_secret self)) # rest \<and>
                  filter is_token_post rest = [] \<and>
                  list_all (uses_credential (heap w' (next_addr w))) rest) \<and>
               (self' = self \<or> (self' = self\<lparr>oauth := next_addr w\<rparr> \<and> oauth self' \<noteq> oauth self))
          else filter is_token_post (new_events w w') = [] \<and>
               list_all (uses_credential (heap w (oauth self))) (new_events w w') \<and>
               self' = self \<and> heap w' = heap w)"
    proof (cases ra)
      case (Inl e)
      with a assms(1) have "r = Inl e" "self' = sa" "w' = wa" by (auto simp: request_def)
      with ac' Inl assms(2) show ?thesis
        by (auto simp: new_events_def split: if_splits)
    next
      case (Inr u)
      with a assms(1) have s: "self' = sa"
        by (auto simp: request_def Let_def split: if_splits http_result.splits)
      define ev where "ev = ApiCall verb (url_base_join urljoin sa [path])
          (auth_headers (heap wa (oauth sa)))
          (case map_of kwargs ''timeout'' of None \<Rightarrow> PInt 10 | Some t \<Rightarrow> t)
          (AList.delete ''timeout'' kwargs)"
      have e: "uses_credential (heap wa (oauth sa)) ev" "\<not> is_token_post ev"
        by (simp_all add: ev_def)
      from Inr a assms(1) have "w' = wa \<or> w' = wa\<lparr>sent := sent wa @ [ev]\<rparr>"
        by (auto simp: request_def Let_def ev_def split: if_splits http_result.splits)
      with e have w: "w' = wa \<or> (\<exists>ev. uses_credential (heap wa (oauth sa)) ev \<and>
          \<not> is_token_post ev \<and> w' = wa\<lparr>sent := sent wa @ [ev]\<rparr>)"
        by blast
      from ac' Inr s w assms(2) show ?thesis
        by (auto simp: new_events_def split: if_splits)
    qed
    with x show ?thesis by simp
  qed
qed

lemma example_expired:
  "is_expired (clock example_world (ticks example_world))
     (heap example_world (oauth example_client)) = Inr True"
proof -
  have "is_expired (whole 5000) old_credential = Inr (1000 + expires_in old_credential < 5000)"
    by (rule is_expired_whole) (simp_all add: old_credential_def)
  then show ?thesis
    by (simp add: example_world_def example_client_def old_credential_def)
qed

lemma example_request:
  "request concat_url example_client GET ''/v2/organizations'' [] example_world =
     (Inr (PList []), example_client\<lparr>oauth := 1\<rparr>,
      example_world\<lparr>ticks := 2,
        sent := [TokenPost ''https://app.ninjarmm.com/ws/oauth/token''
                   (credentials_payload ''id'' ''secret''),
                 ApiCall GET ''https://app.ninjarmm.com/v2/organizations''
                   [(''accept'', ''application/json''), (''Authorization'', ''Bearer tok2'')]
                   (PInt 10) []],
        heap := (heap example_world)(1 := \<lparr>access_token = ''tok2'', token_type = ''Bearer'',
                   expires_in = 3600, scope = ''monitoring'', obtained_at = whole 5001\<rparr>),
        next_addr := 2\<rparr>)"
proof -
  have a: "authenticate example_client example_world =
     (Inr (), example_client\<lparr>oauth := 1\<rparr>,
      example_world\<lparr>ticks := 2,
        sent := [TokenPost ''https://app.ninjarmm.com/ws/oauth/token''
                   (credentials_payload ''id'' ''secret'')],
        heap := (heap example_world)(1 := \<lparr>access_token = ''tok2'', token_type = ''Bearer'',
                   expires_in = 3600, scope = ''monitoring'', obtained_at = whole 5001\<rparr>),
        next_addr := 2\<rparr>)"
    using example_expired
    by (simp add: authenticate_def time_time_def)
       (simp add: request_credentials_def time_time_def example_world_def example_client_def
          granted_def raise_for_status_def json_field_def exn_bind_def Let_def)
  show ?thesis
    unfolding request_def a
    by (simp add: example_world_def example_client_def auth_headers_def url_base_join_def
          join_str_def concat_url_def raise_for_status_def exn_bind_def Let_def)
qed

theorem request_refreshes_expired_token_witness:
  "oauth example_client < next_addr example_world \<and>
   is_expired (clock example_world (ticks example_world))
     (heap example_world (oauth example_client)) = Inr True \<and>
   new_events example_world
     (snd (snd (request concat_url example_client GET ''/v2/organizations'' [] example_world))) =
     [TokenPost ''https://app.ninjarmm.com/ws/oauth/token'' (credentials_payload ''id'' ''secret''),
      ApiCall GET ''https://app.ninjarmm.com/v2/organizations''
        [(''accept'', ''application/json''), (''Authorization'', ''Bearer tok2'')] (PInt 10) []] \<and>
   oauth (fst (snd (request concat_url example_client GET ''/v2/organizations'' [] example_world))) = 1 \<and>
   heap (snd (snd (request concat_url example_client GET ''/v2/organizations'' [] example_world))) 0 =
     old_credential"
proof -
  have h: "oauth example_client < next_addr example_world"
    by (simp add: example_client_def example_world_def)
  have x: "is_expired (clock example_world (ticks example_world))
     (heap example_world (oauth example_client)) = Inr True"
    by (rule example_expired)
  note t = request_refreshes_expired_token [OF example_request h]
  have n: "new_events example_world
     (snd (snd (request concat_url example_client GET ''/v2/organizations'' [] example_world))) =
     [TokenPost ''https://app.ninjarmm.com/ws/oauth/token'' (credentials_payload ''id'' ''secret''),
      ApiCall GET ''https://app.ninjarmm.com/v2/organizations''
        [(''accept'', ''application/json''), (''Authorization'', ''Bearer tok2'')] (PInt 10) []]"
    by (simp add: example_request new_events_def) (simp add: example_world_def)
  have o: "oauth (fst (snd (request concat_url example_client GET ''/v2/organizations'' []
      example_world))) = 1"
    by (simp add: example_request)
  have k: "heap (snd (snd (request concat_url example_client GET ''/v2/organizations'' []
      example_world))) 0 = old_credential"
    unfolding example_request snd_conv
    using t [THEN conjunct2, THEN conjunct1]
    by (simp add: example_client_def example_world_def)
  show ?thesis using h x n o k by blast
qed

section \<open>NinjaRMMAPI: construction\<close>

lemma sublist_join_str: "x \<in> set xs \<Longrightarrow> sublist x (join_str sep xs)"
proof -
  have f: "sublist x (foldl (\<lambda>acc y. acc @ sep @ y) a ys)" if "sublist x a \<or> x \<in> set ys" for a ys
    using that
  proof (induction ys arbitrary: a)
    case Nil then show ?case by simp
  next
    case (Cons y ys)
    have "sublist x (a @ sep @ y) \<or> x \<in> set ys"
      using Cons.prems by (auto intro: sublist_appendI simp: sublist_append)
    then show ?case using Cons.IH by simp
  qed
  assume "x \<in> set xs"
  then show ?thesis
    by (cases xs) (auto simp: join_str_def intro!: f)
qed

lemma missing_neq_invalid: "missing_error vars \<noteq> invalid_environment_error"
  by (simp add: missing_error_def invalid_environment_error_def)

lemma no_missing:
  assumes "\<forall>var \<in> set env_names. \<exists>s. env var = Some s \<and> s \<noteq> []"
  shows "missing_env_vars env = []"
  using assms by (auto simp: missing_env_vars_def falsy_def filter_empty_conv)

lemma mars_env_set: "\<forall>var \<in> set env_names. \<exists>s. mars_env var = Some s \<and> s \<noteq> []"
  by (simp add: env_names_def mars_env_def env_of_def)

text \<open>
  C6, as amended. When all five variables are set to non-empty values and the
  environment name is not one of \<open>valid_environments\<close>, construction fails with the
  \<^verbatim>\<open>ValueError\<close> "Invalid NINJA_ENVIRONMENT. Must be one of: app, us2, ca, eu, oc" and
  the world is as it was: no request has been sent.
\<close>

theorem invalid_environment_rejected:
  assumes "\<forall>var \<in> set env_names. \<exists>s. env var = Some s \<and> s \<noteq> []"
    and "env ''NINJA_ENVIRONMENT'' = Some e" and "e \<notin> set valid_environments"
  shows "ninja_init urljoin env w = (Inl invalid_environment_error, w) \<and>
         sent (snd (ninja_init urljoin env w)) = sent w"
proof -
  from assms(1) obtain cid secret base docs where
    "env ''NINJA_CLIENT_ID'' = Some cid" "env ''NINJA_CLIENT_SECRET'' = Some secret"
    "env ''NINJA_BASE_URL'' = Some base" "env ''NINJA_DOCS_PATH'' = Some docs"
    by (auto simp: env_names_def)
  then show ?thesis
    using assms(2,3) no_missing [OF assms(1)] by (simp add: ninja_init_def)
qed

theorem invalid_environment_rejected_witness:
  "mars_env ''NINJA_ENVIRONMENT'' = Some ''mars'' \<and> ''mars'' \<notin> set valid_environments \<and>
   mars_env ''NINJA_CLIENT_ID'' = Some ''id'' \<and>
   mars_env ''NINJA_CLIENT_SECRET'' = Some ''secret'' \<and>
   mars_env ''NINJA_BASE_URL'' = Some ''https://app.ninjarmm.com'' \<and>
   mars_env ''NINJA_DOCS_PATH'' = Some ''/apidocs'' \<and>
   fst (ninja_init concat_url mars_env example_world) =
     Inl (ValueError ''Invalid NINJA_ENVIRONMENT. Must be one of: app, us2, ca, eu, oc'') \<and>
   sent (snd (ninja_init concat_url mars_env example_world)) = []"
proof -
  have e: "mars_env ''NINJA_ENVIRONMENT'' = Some ''mars''"
    by (simp add: mars_env_def env_of_def)
  have v: "''mars'' \<notin> set valid_environments"
    by (simp add: valid_environments_def)
  note t = invalid_environment_rejected [OF mars_env_set e v, of concat_url example_world]
  have m: "invalid_environment_error =
      ValueError ''Invalid NINJA_ENVIRONMENT. Must be one of: app, us2, ca, eu, oc''"
    by (simp add: invalid_environment_error_def valid_environments_def join_str_def)
  have s: "sent example_world = []" by (simp add: example_world_def)
  have r: "mars_env ''NINJA_CLIENT_ID'' = Some ''id'' \<and>
   mars_env ''NINJA_CLIENT_SECRET'' = Some ''secret'' \<and>
   mars_env ''NINJA_BASE_URL'' = Some ''https://app.ninjarmm.com'' \<and>
   mars_env ''NINJA_DOCS_PATH'' = Some ''/apidocs''"
    by (simp add: mars_env_def env_of_def)
  show ?thesis using e v t r by (simp add: m s)
qed

text \<open>
  C6 as stated fails: in \<open>empty_secret_env\<close> all five variables are set, the environment
  name is \<^verbatim>\<open>mars\<close>, and construction fails with the error for missing variables, naming
  \<^verbatim>\<open>NINJA_CLIENT_SECRET\<close>, which is set to the empty string.
\<close>

theorem empty_secret_counterexample:
  "empty_secret_env ''NINJA_ENVIRONMENT'' = Some ''mars'' \<and>
   empty_secret_env ''NINJA_CLIENT_ID'' = Some ''id'' \<and>
   empty_secret_env ''NINJA_CLIENT_SECRET'' = Some [] \<and>
   empty_secret_env ''NINJA_BASE_URL'' = Some ''https://app.ninjarmm.com'' \<and>
   empty_secret_env ''NINJA_DOCS_PATH'' = Some ''/apidocs'' \<and>
   ''mars'' \<notin> set valid_environments \<and>
   fst (ninja_init concat_url empty_secret_env example_world) =
     Inl (ValueError ''The following environment variables are not set: NINJA_CLIENT_SECRET'') \<and>
   fst (ninja_init concat_url empty_secret_env example_world) \<noteq> Inl invalid_environment_error"
proof -
  have m: "missing_env_vars empty_secret_env = [''NINJA_CLIENT_SECRET'']"
    by (simp add: missing_env_vars_def env_names_def empty_secret_env_def env_of_def falsy_def)
  have i: "fst (ninja_init concat_url empty_secret_env example_world) =
     Inl (ValueError ''The following environment variables are not set: NINJA_CLIENT_SECRET'')"
    by (simp add: ninja_init_def m missing_error_def join_str_def)
  have n: "fst (ninja_init concat_url empty_secret_env example_world) \<noteq> Inl invalid_environment_error"
    unfolding i by (simp add: invalid_environment_error_def)
  have e: "empty_secret_env ''NINJA_ENVIRONMENT'' = Some ''mars'' \<and>
   empty_secret_env ''NINJA_CLIENT_ID'' = Some ''id'' \<and>
   empty_secret_env ''NINJA_CLIENT_SECRET'' = Some [] \<and>
   empty_secret_env ''NINJA_BASE_URL'' = Some ''https://app.ninjarmm.com'' \<and>
   empty_secret_env ''NINJA_DOCS_PATH'' = Some ''/apidocs''"
    by (simp add: empty_secret_env_def env_of_def)
  have v: "''mars'' \<notin> set valid_environments"
    by (simp add: valid_environments_def)
  show ?thesis using e v i n by blast
qed

text \<open>
  C10. A required variable set to the empty string is among the missing ones:
  construction fails with the error for missing variables, whose message contains the
  variable's name, the world is as it was, and the error is not the one for an invalid
  environment name. This holds in particular for \<^verbatim>\<open>NINJA_ENVIRONMENT\<close> itself.
\<close>

theorem empty_variable_is_missing:
  assumes "var \<in> set env_names" and "env var = Some []"
  shows "ninja_init urljoin env w = (Inl (missing_error (missing_env_vars env)), w) \<and>
         var \<in> set (missing_env_vars env) \<and>
         (\<exists>msg. missing_error (missing_env_vars env) = ValueError msg \<and> sublist var msg) \<and>
         missing_error (missing_env_vars env) \<noteq> invalid_environment_error"
proof -
  have m: "var \<in> set (missing_env_vars env)"
    using assms by (simp add: missing_env_vars_def falsy_def)
  then have ne: "missing_env_vars env \<noteq> []" by auto
  have pre: "sublist x (p @ ys)" if "sublist x ys" for x p and ys :: string
  proof -
    from that obtain ps ss where "ys = ps @ x @ ss" by (auto simp: sublist_def)
    then have "p @ ys = (p @ ps) @ x @ ss" by simp
    then show ?thesis unfolding sublist_def by blast
  qed
  have s: "\<exists>msg. missing_error (missing_env_vars env) = ValueError msg \<and> sublist var msg"
    unfolding missing_error_def using pre [OF sublist_join_str [OF m]] by blast
  have i: "ninja_init urljoin env w = (Inl (missing_error (missing_env_vars env)), w)"
    using ne by (simp add: ninja_init_def)
  show ?thesis
    using m s i missing_neq_invalid by blast
qed

theorem empty_variable_is_missing_witness:
  "''NINJA_ENVIRONMENT'' \<in> set env_names \<and>
   empty_name_env ''NINJA_ENVIRONMENT'' = Some [] \<and>
   missing_env_vars empty_name_env = [''NINJA_ENVIRONMENT''] \<and>
   fst (ninja_init concat_url empty_name_env example_world) =
     Inl (ValueError ''The following environment variables are not set: NINJA_ENVIRONMENT'') \<and>
   sent (snd (ninja_init concat_url empty_name_env example_world)) = []"
proof -
  have h1: "''NINJA_ENVIRONMENT'' \<in> set env_names" by (simp add: env_names_def)
  have h2: "empty_name_env ''NINJA_ENVIRONMENT'' = Some []"
    by (simp add: empty_name_env_def env_of_def)
  have m: "missing_env_vars empty_name_env = [''NINJA_ENVIRONMENT'']"
    by (simp add: missing_env_vars_def env_names_def empty_name_env_def env_of_def falsy_def)
  note t = empty_variable_is_missing [where env = empty_name_env
      and var = "''NINJA_ENVIRONMENT''" and urljoin = concat_url and w = example_world, OF h1 h2]
  have s: "sent example_world = []" by (simp add: example_world_def)
  show ?thesis
    using h1 h2 t by (simp add: m missing_error_def join_str_def s)
qed

section \<open>NinjaRMMAPI: the documentation index\<close>

lemma exn_bind_Inr [simp]: "exn_bind (Inr x) f = f x"
  by (simp add: exn_bind_def)

lemma exn_bind_Inl [simp]: "exn_bind (Inl e) f = Inl e"
  by (simp add: exn_bind_def)

























lemma py_getitem_dict_Inr:
  "py_getitem (PDict kvs) k = Inr v \<longleftrightarrow> hashable k \<and> map_of kvs k = Some v"
  by (auto split: option.splits)
















lemma undeclared_result:
  "get_sorted_docs (with_doc undeclared_doc) = Inl (KeyError (PStr ''backup''))"
  by code_simp







section \<open>The reference codec reads back what it writes\<close>

subsection \<open>String literals\<close>

text \<open>
  A string literal is read back as the string it was written from: every character is
  either kept, or written as one of the short escapes, or as a four-digit hexadecimal escape.
\<close>

lemma hex_val_hex_digit_all: "list_all (\<lambda>k. hex_val (hex_digit k) = Some k) [0..<16]"
  by code_simp

lemma hex_val_hex_digit: "k < 16 \<Longrightarrow> hex_val (hex_digit k) = Some k"
  using hex_val_hex_digit_all by (simp add: list_all_iff)

lemma py_ord_less: "py_ord c < 256"
  by (simp add: py_ord_def)

lemma char_of_py_ord: "char_of (py_ord c) = c"
  by (simp add: py_ord_def)

lemma hex4_char_hex4:
  "hex4 (py_ord c) = [a, b, h, l] \<Longrightarrow> hex4_char a b h l = Some c"
proof -
  assume e: "hex4 (py_ord c) = [a, b, h, l]"
  let ?n = "py_ord c"
  have n: "?n < 256" by (rule py_ord_less)
  then have d: "?n div 4096 = 0" "?n div 256 = 0" "?n div 16 < 16" by auto
  from e have a: "a = hex_digit 0" and b: "b = hex_digit 0"
    and h: "h = hex_digit (?n div 16)" and l: "l = hex_digit ?n"
    by (auto simp: hex4_def d)
  have hl: "hex_digit ?n = hex_digit (?n mod 16)" by (simp add: hex_digit_def)
  have v: "hex_val a = Some 0" "hex_val b = Some 0" "hex_val h = Some (?n div 16)"
    "hex_val l = Some (?n mod 16)"
    using d by (simp_all add: a b h l hex_val_hex_digit hl del: hex_digit_def)
  have "char_of (16 * (?n div 16) + ?n mod 16) = c"
    by (simp add: char_of_py_ord)
  then show ?thesis by (simp add: hex4_char_def v)
qed

lemma scan_string_escape_char:
  "scan_string (escape_char c @ t) = map_option (\<lambda>(str, rest). (c # str, rest)) (scan_string t)"
proof -
  consider (q) "c = CHR 0x22" | (b) "c = CHR 0x5C" | (n) "c = CHR 0x0A" | (r) "c = CHR 0x0D"
    | (t) "c = CHR 0x09" | (bs) "c = CHR 0x08" | (f) "c = CHR 0x0C"
    | (p) "c \<noteq> CHR 0x22" "c \<noteq> CHR 0x5C" "0x20 \<le> py_ord c" "py_ord c \<le> 0x7E"
    | (u) "c \<noteq> CHR 0x22" "c \<noteq> CHR 0x5C" "c \<noteq> CHR 0x0A" "c \<noteq> CHR 0x0D" "c \<noteq> CHR 0x09"
          "c \<noteq> CHR 0x08" "c \<noteq> CHR 0x0C" "\<not> (0x20 \<le> py_ord c \<and> py_ord c \<le> 0x7E)"
    by blast
  then show ?thesis
  proof cases
    case u
    obtain a b h l where e: "hex4 (py_ord c) = [a, b, h, l]" by (simp add: hex4_def)
    from u have "escape_char c = [CHR 0x5C, CHR ''u''] @ hex4 (py_ord c)"
      by (simp add: escape_char_def)
    then show ?thesis
      by (simp add: e hex4_char_hex4 [OF e])
  next
    case p
    then have "escape_char c = [c]"
      by (auto simp: escape_char_def py_ord_def)
    with p show ?thesis by simp
  qed (simp_all add: escape_char_def unescape_def)
qed

lemma scan_string_escaped:
  "scan_string (escaped s @ CHR 0x22 # rest) = Some (s, rest)"
  by (induction s) (simp_all add: escaped_def scan_string_escape_char)

subsection \<open>Decimal numerals\<close>

text \<open>
  The decimal numeral of a natural number consists of digits, has no leading zero, and
  denotes that number.
\<close>

lemma dec_nat_simps': "n < 10 \<Longrightarrow> dec_nat n = [hex_digit n]"
  "\<not> n < 10 \<Longrightarrow> dec_nat n = dec_nat (n div 10) @ [hex_digit (n mod 10)]"
  by simp_all

declare dec_nat.simps [simp del]

lemma digit_all:
  "list_all (\<lambda>k. is_digit (hex_digit k) \<and> digit_val (hex_digit k) = k \<and>
       (hex_digit k = CHR ''0'') = (k = 0)) [0..<10]"
  by code_simp

lemma digit_facts:
  assumes "k < 10"
  shows "is_digit (hex_digit k)" "digit_val (hex_digit k) = k" "(hex_digit k = CHR ''0'') = (k = 0)"
  using digit_all assms by (simp_all add: list_all_iff)

lemma dec_nat_digits: "list_all is_digit (dec_nat n)"
proof (induction n rule: dec_nat.induct)
  case (1 n)
  show ?case
  proof (cases "n < 10")
    case True then show ?thesis by (simp add: dec_nat_simps' digit_facts)
  next
    case False
    with 1 show ?thesis by (simp add: dec_nat_simps' digit_facts)
  qed
qed

lemma nat_of_digits_snoc: "nat_of_digits (ds @ [c]) = 10 * nat_of_digits ds + digit_val c"
  by (simp add: nat_of_digits_def)

lemma nat_of_digits_dec_nat: "nat_of_digits (dec_nat n) = n"
proof (induction n rule: dec_nat.induct)
  case (1 n)
  show ?case
  proof (cases "n < 10")
    case True then show ?thesis by (simp add: dec_nat_simps' nat_of_digits_def digit_facts)
  next
    case False
    with 1 show ?thesis by (simp add: dec_nat_simps' nat_of_digits_snoc digit_facts)
  qed
qed

lemma dec_nat_hd: "\<exists>c cs. dec_nat n = c # cs \<and> is_digit c \<and> ((c = CHR ''0'') = (n = 0)) \<and> (n = 0 \<longrightarrow> cs = [])"
proof (induction n rule: dec_nat.induct)
  case (1 n)
  show ?case
  proof (cases "n < 10")
    case True then show ?thesis by (simp add: dec_nat_simps' digit_facts)
  next
    case False
    then have "n div 10 \<noteq> 0" by auto
    with 1 False show ?thesis by (auto simp: dec_nat_simps')
  qed
qed

subsection \<open>Integers\<close>

text \<open>
  An integer is read back from its numeral when a comma, a line break or the end of the
  text comes next.
\<close>

lemma ends_value_digits:
  assumes "ends_value rest" and "list_all is_digit ds"
  shows "takeWhile is_digit (ds @ rest) = ds" "dropWhile is_digit (ds @ rest) = rest"
proof -
  have r: "takeWhile is_digit rest = []" "dropWhile is_digit rest = rest"
    using assms(1) by (cases rest; auto simp: ends_value_def is_digit_def py_ord_def)+
  from assms(2) have "\<forall>x \<in> set ds. is_digit x" by (simp add: list_all_iff)
  then show "takeWhile is_digit (ds @ rest) = ds" "dropWhile is_digit (ds @ rest) = rest"
    by (simp_all add: takeWhile_append2 dropWhile_append2 r)
qed

lemma ends_value_frac_exp:
  assumes "ends_value rest"
  shows "scan_frac rest = ([], rest)" "scan_exp rest = ([], rest)"
  using assms
  by (auto simp: ends_value_def scan_frac_def scan_exp_def split: list.splits)

lemma scan_int_part_dec_nat:
  assumes "ends_value rest"
  shows "scan_int_part (dec_nat n @ rest) = Some (dec_nat n, rest)"
proof -
  obtain c cs where d: "dec_nat n = c # cs" "is_digit c" "(c = CHR ''0'') = (n = 0)" "n = 0 \<longrightarrow> cs = []"
    using dec_nat_hd [of n] by blast
  have "list_all is_digit cs" using dec_nat_digits [of n] by (simp add: d)
  from ends_value_digits [OF assms this] d show ?thesis
    by (auto simp: scan_int_part_def)
qed

lemma minus_not_digit: "\<not> is_digit (CHR ''-'')"
  by (simp add: is_digit_def py_ord_def)

lemma scan_number_int_repr:
  assumes "ends_value rest"
  shows "scan_number (int_repr i @ rest) = Some (PInt i, rest)"
proof (cases "i < 0")
  case True
  then show ?thesis
    by (simp add: int_repr_def scan_number_def scan_int_part_dec_nat [OF assms]
          ends_value_frac_exp [OF assms] nat_of_digits_dec_nat)
next
  case False
  obtain c cs where d: "dec_nat (nat i) = c # cs" "is_digit c"
    using dec_nat_hd [of "nat i"] by blast
  then have n: "c \<noteq> CHR ''-''" using minus_not_digit by auto
  have "scan_int_part (c # cs @ rest) = Some (c # cs, rest)"
    using scan_int_part_dec_nat [OF assms, of "nat i"] by (simp add: d)
  with False n show ?thesis
    using nat_of_digits_dec_nat [of "nat i"]
    by (simp add: int_repr_def scan_number_def d ends_value_frac_exp [OF assms])
qed

lemma int_repr_hd:
  "\<exists>c cs. int_repr i = c # cs \<and> (is_digit c \<or> c = CHR ''-'')"
  using dec_nat_hd [of "nat i"] dec_nat_hd [of "nat (- i)"]
  by (auto simp: int_repr_def)

subsection \<open>The shape of an encoded document\<close>

text \<open>
  On a document that JSON represents the encoder does not raise, and the text of a list
  and of a dictionary is built from the texts of the parts.
\<close>

lemma then_out_ok: "snd a = None \<Longrightarrow> then_out a b = (fst a @ fst b, snd b)"
  by (simp add: then_out_def)

lemma emit_simps [simp]: "fst (emit s) = s" "snd (emit s) = None"
  by (simp_all add: emit_def)

lemma iterencode_ok:
  "json_value v \<Longrightarrow> snd (iterencode lvl v) = None"
  "(\<forall>x \<in> set xs. json_value x) \<Longrightarrow> snd (iterencode_list b lvl xs) = None"
  "(\<forall>kv \<in> set kvs. is_str (fst kv) \<and> json_value (snd kv)) \<Longrightarrow> snd (iterencode_dict b' lvl kvs) = None"
proof (induction lvl v and b lvl xs and b' lvl kvs rule: iterencode_iterencode_list_iterencode_dict.induct)
  case (13 first lvl k v ps)
  from 13(3) obtain s where k: "k = PStr s" by (cases k) auto
  have kt: "key_text k = Some s" by (simp add: k key_text_def)
  from 13(3) have "json_value v" "\<forall>kv \<in> set ps. is_str (fst kv) \<and> json_value (snd kv)" by auto
  with 13(1,2) [OF kt] show ?case
    by (simp add: kt then_out_ok)
qed (simp_all add: then_out_ok)

lemma enc_items_Cons:
  assumes "\<forall>x \<in> set (x # xs). json_value x"
  shows "enc_items lvl (x # xs) =
           enc lvl x @ (if xs = [] then [] else CHR '','' # newline_indent lvl @ enc_items lvl xs)"
proof -
  from assms have j: "json_value x" "\<forall>x \<in> set xs. json_value x" by auto
  have f: "fst (iterencode_list False lvl ys) =
        (if ys = [] then [] else CHR '','' # newline_indent lvl @ fst (iterencode_list True lvl ys))"
    if "\<forall>y \<in> set ys. json_value y" for ys
  proof (cases ys)
    case Nil then show ?thesis by simp
  next
    case (Cons y ys')
    with that have "json_value y" "\<forall>y \<in> set ys'. json_value y" by auto
    then show ?thesis
      by (simp add: Cons then_out_ok iterencode_ok)
  qed
  show ?thesis
    using j by (simp add: enc_items_def enc_def then_out_ok iterencode_ok f [OF j(2)])
qed

lemma enc_pairs_Cons:
  assumes "\<forall>kv \<in> set ((PStr k, v) # kvs). is_str (fst kv) \<and> json_value (snd kv)"
  shows "enc_pairs lvl ((PStr k, v) # kvs) =
           CHR 0x22 # escaped k @ CHR 0x22 # '': '' @ enc lvl v @
           (if kvs = [] then [] else CHR '','' # newline_indent lvl @ enc_pairs lvl kvs)"
proof -
  from assms have j: "json_value v" "\<forall>kv \<in> set kvs. is_str (fst kv) \<and> json_value (snd kv)" by auto
  have f: "fst (iterencode_dict False lvl ys) =
        (if ys = [] then [] else CHR '','' # newline_indent lvl @ fst (iterencode_dict True lvl ys))"
    if "\<forall>kv \<in> set ys. is_str (fst kv) \<and> json_value (snd kv)" for ys
  proof (cases ys)
    case Nil then show ?thesis by simp
  next
    case (Cons y ys')
    obtain k' v' where y: "y = (k', v')" by (cases y)
    with that Cons obtain s where k': "k' = PStr s" by (cases k') auto
    from that Cons y have "json_value v'" "\<forall>kv \<in> set ys'. is_str (fst kv) \<and> json_value (snd kv)" by auto
    then show ?thesis
      by (simp add: Cons y k' key_text_def then_out_ok iterencode_ok)
  qed
  show ?thesis
    using j by (simp add: enc_pairs_def enc_def key_text_def then_out_ok iterencode_ok f [OF j(2)]
        encode_basestring_ascii_def escaped_def)
qed

lemma enc_atoms:
  "enc lvl PNone = ''null''"
  "enc lvl (PBool b) = (if b then ''true'' else ''false'')"
  "enc lvl (PInt i) = int_repr i"
  "enc lvl (PStr s) = CHR 0x22 # escaped s @ [CHR 0x22]"
  by (simp_all add: enc_def encode_basestring_ascii_def escaped_def)

lemma enc_list:
  assumes "\<forall>x \<in> set xs. json_value x"
  shows "enc lvl (PList xs) =
    (if xs = [] then ''[]''
     else CHR ''['' # newline_indent (Suc lvl) @ enc_items (Suc lvl) xs @ newline_indent lvl @ '']'')"
  using assms by (simp add: enc_def enc_items_def then_out_ok iterencode_ok)

lemma enc_dict:
  assumes "\<forall>kv \<in> set kvs. is_str (fst kv) \<and> json_value (snd kv)"
  shows "enc lvl (PDict kvs) =
    (if kvs = [] then ''{}''
     else CHR ''{'' # newline_indent (Suc lvl) @ enc_pairs (Suc lvl) kvs @ newline_indent lvl @ ''}'')"
  using assms by (simp add: enc_def enc_pairs_def then_out_ok iterencode_ok)

subsection \<open>Lists\<close>

text \<open>
  The decoder reads back the elements of a list, given that it reads back each of them.
\<close>

lemma skip_ws_nonws: "\<not> is_ws c \<Longrightarrow> skip_ws (c # t) = c # t"
  by (simp add: skip_ws_def)

lemma skip_ws_ws: "is_ws c \<Longrightarrow> skip_ws (c # t) = skip_ws t"
  by (simp add: skip_ws_def)

lemma skip_ws_newline_indent: "skip_ws (newline_indent l @ t) = skip_ws t"
proof -
  have "\<forall>x \<in> set (newline_indent l). is_ws x"
    by (auto simp: newline_indent_def is_ws_def)
  then show ?thesis by (simp add: skip_ws_def dropWhile_append2)
qed

lemma ends_value_newline_indent: "ends_value (newline_indent l @ t)"
  by (simp add: ends_value_def newline_indent_def)

lemma ends_value_comma: "ends_value (CHR '','' # t)"
  by (simp add: ends_value_def)

lemma ends_value_Nil: "ends_value []"
  by (simp add: ends_value_def)

lemma digit_starts: "is_digit c \<or> c = CHR ''-'' \<Longrightarrow> starts_value c"
  by (auto simp: starts_value_def is_digit_def is_ws_def py_ord_def)

lemma enc_hd:
  assumes "json_value v"
  shows "\<exists>c cs. enc lvl v = c # cs \<and> starts_value c"
proof (cases v)
  case (PInt i)
  from int_repr_hd [of i] obtain c cs where "int_repr i = c # cs" "is_digit c \<or> c = CHR ''-''"
    by blast
  then show ?thesis using digit_starts by (simp add: PInt enc_atoms)
next
  case (PList xs)
  with assms have "\<forall>x \<in> set xs. json_value x" by simp
  then show ?thesis by (simp add: PList enc_list starts_value_def is_ws_def)
next
  case (PDict kvs)
  with assms have "\<forall>kv \<in> set kvs. is_str (fst kv) \<and> json_value (snd kv)" by simp
  then show ?thesis by (simp add: PDict enc_dict starts_value_def is_ws_def)
qed (use assms in \<open>simp_all add: enc_atoms starts_value_def is_ws_def\<close>)

lemma skip_ws_enc:
  assumes "json_value v"
  shows "skip_ws (enc lvl v @ t) = enc lvl v @ t"
  using enc_hd [OF assms, of lvl] by (auto simp: starts_value_def skip_ws_nonws)

lemma enc_items_hd:
  assumes "\<forall>x \<in> set xs. json_value x" and "xs \<noteq> []"
  shows "\<exists>c cs. enc_items lvl xs = c # cs \<and> starts_value c"
proof -
  from assms obtain x xs' where xs: "xs = x # xs'" by (cases xs) auto
  with assms have "json_value x" by simp
  from enc_hd [OF this, of lvl] show ?thesis
    using assms(1) unfolding xs by (auto simp: enc_items_Cons)
qed

lemma reads_backD: "reads_back v \<Longrightarrow> ends_value rest \<Longrightarrow> 2 * length (enc lvl v) \<le> n \<Longrightarrow>
    scan_once n (enc lvl v @ rest) = Some (v, rest)"
  by (simp add: reads_back_def)

lemma scan_array_items:
  assumes "\<forall>x \<in> set xs. json_value x \<and> reads_back x" and "xs \<noteq> []"
    and "2 * length (enc_items lvl xs) + 1 \<le> n"
  shows "scan_array n (enc_items lvl xs @ newline_indent l' @ CHR '']'' # rest) = Some (xs, rest)"
  using assms
proof (induction xs arbitrary: n)
  case Nil
  then show ?case by simp
next
  case (Cons x xs)
  from Cons.prems(1) have jx: "json_value x" and rx: "reads_back x"
    and jxs: "\<forall>x \<in> set xs. json_value x" and all: "\<forall>y \<in> set (x # xs). json_value y" by auto
  note it = enc_items_Cons [OF all, of lvl]
  from Cons.prems(3) obtain m where n: "n = Suc m" by (cases n) auto
  show ?case
  proof (cases "xs = []")
    case True
    have e: "enc_items lvl (x # xs) = enc lvl x" using it by (simp add: True)
    have a: "scan_once m (enc lvl x @ newline_indent l' @ CHR '']'' # rest) =
            Some (x, newline_indent l' @ CHR '']'' # rest)"
      using Cons.prems(3) by (intro reads_backD [OF rx] ends_value_newline_indent) (simp add: e n)
    have b: "skip_ws (newline_indent l' @ CHR '']'' # rest) = CHR '']'' # rest"
      by (simp add: skip_ws_newline_indent skip_ws_nonws is_ws_def)
    show ?thesis
      unfolding n e by (simp add: a b True)
  next
    case False
    let ?tail = "enc_items lvl xs @ newline_indent l' @ CHR '']'' # rest"
    have e: "enc_items lvl (x # xs) = enc lvl x @ CHR '','' # newline_indent lvl @ enc_items lvl xs"
      using it by (simp add: False)
    have a: "scan_once m (enc lvl x @ CHR '','' # newline_indent lvl @ ?tail) =
            Some (x, CHR '','' # newline_indent lvl @ ?tail)"
      using Cons.prems(3) by (intro reads_backD [OF rx] ends_value_comma) (simp add: e n)
    have b: "skip_ws (CHR '','' # newline_indent lvl @ ?tail) = CHR '','' # newline_indent lvl @ ?tail"
      by (simp add: skip_ws_nonws is_ws_def)
    obtain c cs where h: "enc_items lvl xs = c # cs" "starts_value c"
      using enc_items_hd [OF jxs False, of lvl] by blast
    have c: "skip_ws (newline_indent lvl @ ?tail) = ?tail"
      using h by (simp add: skip_ws_newline_indent skip_ws_nonws starts_value_def)
    have "2 * length (enc_items lvl xs) + 1 \<le> m"
      using Cons.prems(3) by (simp add: e n)
    from Cons.IH [OF _ False this] Cons.prems(1)
    have d: "scan_array m ?tail = Some (xs, rest)" by simp
    show ?thesis
      unfolding n e by (simp add: a b c d)
  qed
qed

subsection \<open>Dictionaries\<close>

text \<open>
  The decoder reads back the entries of a dictionary, given that it reads back each value.
\<close>

lemma enc_pairs_hd:
  assumes "\<forall>kv \<in> set kvs. is_str (fst kv) \<and> json_value (snd kv)" and "kvs \<noteq> []"
  shows "\<exists>cs. enc_pairs lvl kvs = CHR 0x22 # cs"
proof -
  from assms obtain kv kvs' where kvs: "kvs = kv # kvs'" by (cases kvs) auto
  obtain k v where kv: "kv = (k, v)" by (cases kv)
  with assms kvs obtain s where k: "k = PStr s" by (cases k) auto
  show ?thesis
    using assms(1) unfolding kvs kv k by (simp add: enc_pairs_Cons)
qed

lemma scan_object_pairs:
  assumes "\<forall>kv \<in> set kvs. is_str (fst kv) \<and> json_value (snd kv) \<and> reads_back (snd kv)" and "kvs \<noteq> []"
    and "2 * length (enc_pairs lvl kvs) + 1 \<le> n"
  shows "scan_object n (enc_pairs lvl kvs @ newline_indent l' @ CHR ''}'' # rest) = Some (kvs, rest)"
  using assms
proof (induction kvs arbitrary: n)
  case Nil
  then show ?case by simp
next
  case (Cons kv kvs)
  obtain k0 v where kv: "kv = (k0, v)" by (cases kv)
  with Cons.prems(1) obtain k where k: "k0 = PStr k" by (cases k0) auto
  from Cons.prems(1) have jv: "json_value v" and rv: "reads_back v"
    and jkvs: "\<forall>kv \<in> set kvs. is_str (fst kv) \<and> json_value (snd kv)"
    and all: "\<forall>kv \<in> set ((PStr k, v) # kvs). is_str (fst kv) \<and> json_value (snd kv)"
    by (auto simp: kv k)
  note it = enc_pairs_Cons [OF all, of lvl]
  from Cons.prems(3) obtain m where n: "n = Suc m" by (cases n) auto
  have q: "CHR '':'' \<noteq> CHR 0x22" "\<not> is_ws (CHR '':'')" "is_ws (CHR '' '')"
    by (simp_all add: is_ws_def)
  show ?case
  proof (cases "kvs = []")
    case True
    let ?R = "newline_indent l' @ CHR ''}'' # rest"
    have e: "enc_pairs lvl ((PStr k, v) # kvs) = CHR 0x22 # escaped k @ CHR 0x22 # '': '' @ enc lvl v"
      using it by (simp add: True)
    have s: "scan_string (escaped k @ CHR 0x22 # '': '' @ enc lvl v @ ?R) =
               Some (k, '': '' @ enc lvl v @ ?R)"
      by (rule scan_string_escaped)
    have a: "scan_once m (enc lvl v @ ?R) = Some (v, ?R)"
      using Cons.prems(3) by (intro reads_backD [OF rv] ends_value_newline_indent) (simp add: e n kv k)
    have b: "skip_ws ?R = CHR ''}'' # rest"
      by (simp add: skip_ws_newline_indent skip_ws_nonws is_ws_def)
    have c: "skip_ws (CHR '' '' # enc lvl v @ ?R) = enc lvl v @ ?R"
      by (simp add: skip_ws_ws q skip_ws_enc [OF jv])
    show ?thesis
      unfolding n kv k e using s
      by (simp add: a b c skip_ws_nonws q True)
  next
    case False
    let ?tail = "enc_pairs lvl kvs @ newline_indent l' @ CHR ''}'' # rest"
    let ?R = "CHR '','' # newline_indent lvl @ ?tail"
    have e: "enc_pairs lvl ((PStr k, v) # kvs) =
        CHR 0x22 # escaped k @ CHR 0x22 # '': '' @ enc lvl v @ CHR '','' # newline_indent lvl @ enc_pairs lvl kvs"
      using it by (simp add: False)
    have s: "scan_string (escaped k @ CHR 0x22 # '': '' @ enc lvl v @ ?R) =
               Some (k, '': '' @ enc lvl v @ ?R)"
      by (rule scan_string_escaped)
    have a: "scan_once m (enc lvl v @ ?R) = Some (v, ?R)"
      using Cons.prems(3) by (intro reads_backD [OF rv] ends_value_comma) (simp add: e n kv k)
    have b: "skip_ws ?R = ?R"
      by (simp add: skip_ws_nonws is_ws_def)
    have c: "skip_ws (CHR '' '' # enc lvl v @ ?R) = enc lvl v @ ?R"
      by (simp add: skip_ws_ws q skip_ws_enc [OF jv])
    obtain cs where h: "enc_pairs lvl kvs = CHR 0x22 # cs"
      using enc_pairs_hd [OF jkvs False, of lvl] by blast
    have d: "skip_ws (newline_indent lvl @ ?tail) = ?tail"
      by (simp add: h skip_ws_newline_indent skip_ws_nonws is_ws_def)
    have "2 * length (enc_pairs lvl kvs) + 1 \<le> m"
      using Cons.prems(3) by (simp add: e n kv k)
    from Cons.IH [OF _ False this] Cons.prems(1)
    have f: "scan_object m ?tail = Some (kvs, rest)" by simp
    show ?thesis
      unfolding n kv k e using s
      by (simp add: a b c d f skip_ws_nonws q)
  qed
qed

lemma dict_of_pairs_distinct:
  assumes "distinct (map fst kvs)"
  shows "dict_of_pairs kvs = kvs"
proof -
  have "foldl (\<lambda>d (k, v). AList.update k v d) acc kvs = acc @ kvs"
    if "distinct (map fst kvs)" "fst ` set acc \<inter> fst ` set kvs = {}" for acc :: "(pyval \<times> pyval) list"
    using that
  proof (induction kvs arbitrary: acc)
    case Nil show ?case by simp
  next
    case (Cons kv kvs)
    obtain k v where kv: "kv = (k, v)" by (cases kv)
    have u: "AList.update k v acc = acc @ [(k, v)]"
    proof -
      have "k \<notin> fst ` set acc" using Cons.prems(2) by (auto simp: kv)
      then show ?thesis by (induction acc) auto
    qed
    have "fst ` set (acc @ [(k, v)]) \<inter> fst ` set kvs = {}"
      using Cons.prems by (auto simp: kv)
    with Cons.IH [of "acc @ [(k, v)]"] Cons.prems(1) show ?case
      by (simp add: kv u)
  qed
  from this [of "[]"] assms show ?thesis by (simp add: dict_of_pairs_def)
qed

subsection \<open>Every document that JSON represents is read back\<close>

text \<open>
  By induction on the document. The fuel of \<open>json_load\<close>, twice the length of the text
  and two, is enough for the text the encoder produced.
\<close>

lemma length_newline_indent: "length (newline_indent l) = Suc (4 * l)"
  by (simp add: newline_indent_def)

lemma reads_back_value: "json_value v \<Longrightarrow> reads_back v"
proof (induction v)
  case PNone
  show ?case unfolding reads_back_def
  proof (intro allI impI)
    fix lvl rest n assume "2 * length (enc lvl PNone) \<le> n"
    then obtain m where "n = Suc m" by (cases n) (auto simp: enc_atoms)
    then show "scan_once n (enc lvl PNone @ rest) = Some (PNone, rest)"
      by (simp add: enc_atoms scan_word_def)
  qed
next
  case (PBool b)
  show ?case unfolding reads_back_def
  proof (intro allI impI)
    fix lvl rest n assume "2 * length (enc lvl (PBool b)) \<le> n"
    then obtain m where "n = Suc m" by (cases n; cases b) (auto simp: enc_atoms)
    then show "scan_once n (enc lvl (PBool b) @ rest) = Some (PBool b, rest)"
      by (cases b) (simp_all add: enc_atoms scan_word_def)
  qed
next
  case (PInt i)
  show ?case unfolding reads_back_def
  proof (intro allI impI)
    fix lvl rest n assume f: "ends_value rest" and "2 * length (enc lvl (PInt i)) \<le> n"
    obtain c cs where h: "int_repr i = c # cs" "is_digit c \<or> c = CHR ''-''"
      using int_repr_hd [of i] by blast
    with \<open>2 * length (enc lvl (PInt i)) \<le> n\<close> obtain m where n: "n = Suc m"
      by (cases n) (auto simp: enc_atoms)
    from h(2) have c: "c \<noteq> CHR 0x22" "c \<noteq> CHR ''{''" "c \<noteq> CHR ''[''" "c \<noteq> CHR ''n''"
      "c \<noteq> CHR ''t''" "c \<noteq> CHR ''f''"
      by (auto simp: is_digit_def py_ord_def)
    have "scan_number (c # cs @ rest) = Some (PInt i, rest)"
      using scan_number_int_repr [OF f, of i] by (simp add: h)
    then show "scan_once n (enc lvl (PInt i) @ rest) = Some (PInt i, rest)"
      by (simp add: enc_atoms n h c)
  qed
next
  case (PStr s)
  show ?case unfolding reads_back_def
  proof (intro allI impI)
    fix lvl rest n assume "2 * length (enc lvl (PStr s)) \<le> n"
    then obtain m where "n = Suc m" by (cases n) (auto simp: enc_atoms)
    then show "scan_once n (enc lvl (PStr s) @ rest) = Some (PStr s, rest)"
      by (simp add: enc_atoms scan_string_escaped)
  qed
next
  case (PList xs)
  from PList.prems have j: "\<forall>x \<in> set xs. json_value x" by simp
  with PList.IH have all: "\<forall>x \<in> set xs. json_value x \<and> reads_back x" by blast
  show ?case unfolding reads_back_def
  proof (intro allI impI)
    fix lvl rest n assume "2 * length (enc lvl (PList xs)) \<le> n"
    note len = this
    show "scan_once n (enc lvl (PList xs) @ rest) = Some (PList xs, rest)"
    proof (cases "xs = []")
      case True
      with len obtain m where "n = Suc m" by (cases n) (auto simp: enc_list)
      then show ?thesis
        by (simp add: True enc_list skip_ws_nonws is_ws_def)
    next
      case False
      let ?tail = "enc_items (Suc lvl) xs @ newline_indent lvl @ CHR '']'' # rest"
      have e: "enc lvl (PList xs) =
          CHR ''['' # newline_indent (Suc lvl) @ enc_items (Suc lvl) xs @ newline_indent lvl @ '']''"
        using j False by (simp add: enc_list)
      from len obtain m where n: "n = Suc m" by (cases n) (auto simp: e)
      obtain c cs where h: "enc_items (Suc lvl) xs = c # cs" "starts_value c"
        using enc_items_hd [OF j False, of "Suc lvl"] by blast
      have s: "skip_ws (newline_indent (Suc lvl) @ ?tail) = c # cs @ newline_indent lvl @ CHR '']'' # rest"
        using h by (simp add: skip_ws_newline_indent skip_ws_nonws starts_value_def)
      have "2 * length (enc_items (Suc lvl) xs) + 1 \<le> m"
        using len by (simp add: e n)
      from scan_array_items [OF all False this, of lvl rest]
      have a: "scan_array m (c # cs @ newline_indent lvl @ CHR '']'' # rest) = Some (xs, rest)"
        by (simp add: h)
      show ?thesis
        unfolding n e using h(2)
        by (simp add: s a starts_value_def)
    qed
  qed
next
  case (PDict kvs)
  from PDict.prems have j: "\<forall>kv \<in> set kvs. is_str (fst kv) \<and> json_value (snd kv)"
    and d: "distinct (map fst kvs)" by simp_all
  have all: "\<forall>kv \<in> set kvs. is_str (fst kv) \<and> json_value (snd kv) \<and> reads_back (snd kv)"
  proof
    fix kv assume m: "kv \<in> set kvs"
    obtain k v where kv: "kv = (k, v)" by (cases kv)
    from j m kv have "json_value v" by auto
    with PDict.IH(2) [of kv v] m kv have "reads_back v" by simp
    with j m kv show "is_str (fst kv) \<and> json_value (snd kv) \<and> reads_back (snd kv)" by auto
  qed
  show ?case unfolding reads_back_def
  proof (intro allI impI)
    fix lvl rest n assume "2 * length (enc lvl (PDict kvs)) \<le> n"
    note len = this
    show "scan_once n (enc lvl (PDict kvs) @ rest) = Some (PDict kvs, rest)"
    proof (cases "kvs = []")
      case True
      with len obtain m where "n = Suc m" by (cases n) (auto simp: enc_dict)
      then show ?thesis
        by (simp add: True enc_dict skip_ws_nonws is_ws_def)
    next
      case False
      let ?tail = "enc_pairs (Suc lvl) kvs @ newline_indent lvl @ CHR ''}'' # rest"
      have e: "enc lvl (PDict kvs) =
          CHR ''{'' # newline_indent (Suc lvl) @ enc_pairs (Suc lvl) kvs @ newline_indent lvl @ ''}''"
        using j False by (simp add: enc_dict)
      from len obtain m where n: "n = Suc m" by (cases n) (auto simp: e)
      obtain cs where h: "enc_pairs (Suc lvl) kvs = CHR 0x22 # cs"
        using enc_pairs_hd [OF j False, of "Suc lvl"] by blast
      have s: "skip_ws (newline_indent (Suc lvl) @ ?tail) =
                 CHR 0x22 # cs @ newline_indent lvl @ CHR ''}'' # rest"
        by (simp add: h skip_ws_newline_indent skip_ws_nonws is_ws_def)
      have "2 * length (enc_pairs (Suc lvl) kvs) + 1 \<le> m"
        using len by (simp add: e n)
      from scan_object_pairs [OF all False this, of lvl rest]
      have a: "scan_object m (CHR 0x22 # cs @ newline_indent lvl @ CHR ''}'' # rest) = Some (kvs, rest)"
        by (simp add: h)
      show ?thesis
        unfolding n e
        by (simp add: s a dict_of_pairs_distinct [OF d])
    qed
  qed
qed simp_all

lemma json_roundtrip:
  assumes "json_value v"
  shows "snd (json_dump v) = None \<and> json_load (fst (json_dump v)) = Some v"
proof -
  have o: "snd (json_dump v) = None"
    using assms by (simp add: json_dump_def iterencode_ok)
  have t: "fst (json_dump v) = enc 0 v" by (simp add: json_dump_def enc_def)
  have "scan_once (2 * length (enc 0 v) + 2) (enc 0 v @ []) = Some (v, [])"
    by (intro reads_backD [OF reads_back_value [OF assms]] ends_value_Nil) simp
  then have "json_load (enc 0 v) = Some v"
    using skip_ws_enc [OF assms, of 0 "[]"]
    by (simp add: json_load_def skip_ws_def)
  with o t show ?thesis by simp
qed

text \<open>
  With the reference codec in the place of the library, a valid document that JSON
  represents is saved without an error and returned by \<open>get_config\<close> as it was, whatever
  the file held before.
\<close>

lemma save_then_get_json_document:
  assumes "config_isvalid d = Inr True" and "json_value d"
  shows "fst (save_config json_dump d fs) = Inr () \<and>
         get_config json_load (snd (save_config json_dump d fs)) = Inr d"
proof -
  from json_roundtrip [OF assms(2)]
  have w: "snd (json_dump d) = None" and r: "json_load (fst (json_dump d)) = Some d"
    by simp_all
  show ?thesis
    using assms(1) r
    by (simp add: save_config_valid [OF assms(1)] w save_outcome_def
          get_config_valid [where content = "fst (json_dump d)"])
qed

end
